theory Spec2Isabelle
  imports Complex_Main "HOL-Library.AList"
begin

section \<open>Text\<close>

text \<open>
  A JavaScript string is a sequence of UTF-16 code units; \<open>length\<close>, \<open>indexOf\<close>,
  \<open>slice\<close> and the regular expressions of the source all work on code units. A string
  is therefore a list of code units, each a natural number. \<open>cu\<close> gives the code
  units of an ASCII literal.
\<close>

type_synonym ustring = "nat list"

definition cu :: "string \<Rightarrow> ustring" where
  "cu s = map of_char s"

text \<open>
  The class \<^verbatim>\<open>\s\<close> of a regular expression, which is also what
  \<^verbatim>\<open>String.prototype.trim\<close> strips: WhiteSpace and LineTerminator of ECMAScript.
\<close>

definition is_space :: "nat \<Rightarrow> bool" where
  "is_space c \<longleftrightarrow>
     c = 0x09 \<or> c = 0x0A \<or> c = 0x0B \<or> c = 0x0C \<or> c = 0x0D \<or> c = 0x20 \<or> c = 0xA0 \<or>
     c = 0x1680 \<or> (0x2000 \<le> c \<and> c \<le> 0x200A) \<or> c = 0x2028 \<or> c = 0x2029 \<or>
     c = 0x202F \<or> c = 0x205F \<or> c = 0x3000 \<or> c = 0xFEFF"

definition trim :: "ustring \<Rightarrow> ustring" where
  "trim s = rev (dropWhile is_space (rev (dropWhile is_space s)))"

text \<open>
  Case folding of the \<^verbatim>\<open>i\<close> flag (without \<^verbatim>\<open>u\<close>): both sides are upper-cased.
  The patterns of the source are ASCII, and ECMAScript's Canonicalize never maps a
  code unit of 128 or more to one below 128, so only the ASCII letters matter.
\<close>

definition canon :: "nat \<Rightarrow> nat" where
  "canon c = (if 0x61 \<le> c \<and> c \<le> 0x7A then c - 0x20 else c)"

text \<open>A literal pattern matched case-insensitively at the head of the input: the rest of the input.\<close>

fun match_ci :: "ustring \<Rightarrow> ustring \<Rightarrow> ustring option" where
  "match_ci [] s = Some s"
| "match_ci (p # ps) [] = None"
| "match_ci (p # ps) (c # cs) = (if canon c = canon p then match_ci ps cs else None)"

definition starts_with :: "ustring \<Rightarrow> ustring \<Rightarrow> bool" where
  "starts_with p s \<longleftrightarrow> take (length p) s = p"

text \<open>\<^verbatim>\<open>s.split(sep)[0]\<close> for a one-character separator: the part before its first occurrence.\<close>

definition split_first :: "nat \<Rightarrow> ustring \<Rightarrow> ustring" where
  "split_first sep s = takeWhile (\<lambda>c. c \<noteq> sep) s"

text \<open>\<^verbatim>\<open>s.split(sep)\<close> for a one-character separator.\<close>

fun split_on :: "nat \<Rightarrow> ustring \<Rightarrow> ustring list" where
  "split_on sep [] = [[]]"
| "split_on sep (c # cs) =
     (if c = sep then [] # split_on sep cs
      else (case split_on sep cs of [] \<Rightarrow> [[c]] | p # ps \<Rightarrow> (c # p) # ps))"

section \<open>JSON values and \<^verbatim>\<open>JSON.parse\<close>\<close>

text \<open>
  The values \<^verbatim>\<open>JSON.parse\<close> can return. A number carries the exact rational value
  of its literal (rounding to a double is not modelled). An object is the list of its
  members in order of first insertion, a repeated key overwriting the earlier value;
  the special enumeration order of integer-like keys is not modelled.
\<close>

datatype json =
    JNull
  | JBool bool
  | JNumber rat
  | JString ustring
  | JArray "json list"
  | JObject "(ustring \<times> json) list"

datatype tok =
    TLBrace | TRBrace | TLBrack | TRBrack | TColon | TComma
  | TStr ustring | TNum rat | TTrue | TFalse | TNull

text \<open>
  The lexer reads one code unit at a time. A number literal follows the JSON grammar
  \<^verbatim>\<open>-? (0 | [1-9][0-9]*) (. [0-9]+)? ([eE] [+-]? [0-9]+)?\<close>; the states name the
  part just read.
\<close>

datatype numstate = NMinus | NZero | NInt | NDot | NFrac | NExpMark | NExpSign | NExp

record numacc =
  neg :: bool
  mant :: nat
  fracd :: nat
  eneg :: bool
  expo :: nat

definition num_value :: "numacc \<Rightarrow> rat" where
  "num_value a =
     (let m = of_nat (mant a) / 10 ^ fracd a;
          e = (if eneg a then m / 10 ^ expo a else m * 10 ^ expo a)
      in if neg a then - e else e)"

definition num_final :: "numstate \<Rightarrow> bool" where
  "num_final st \<longleftrightarrow> st = NZero \<or> st = NInt \<or> st = NFrac \<or> st = NExp"

definition is_digit :: "nat \<Rightarrow> bool" where
  "is_digit c \<longleftrightarrow> 0x30 \<le> c \<and> c \<le> 0x39"

definition hex_val :: "nat \<Rightarrow> nat option" where
  "hex_val c =
     (if 0x30 \<le> c \<and> c \<le> 0x39 then Some (c - 0x30)
      else if 0x61 \<le> c \<and> c \<le> 0x66 then Some (c - 0x57)
      else if 0x41 \<le> c \<and> c \<le> 0x46 then Some (c - 0x37)
      else None)"

definition is_exp_mark :: "nat \<Rightarrow> bool" where
  "is_exp_mark c \<longleftrightarrow> c = 0x65 \<or> c = 0x45"

text \<open>One more code unit of a number literal, or \<open>None\<close> when it cannot continue the literal.\<close>

fun lex_num :: "numstate \<Rightarrow> numacc \<Rightarrow> nat \<Rightarrow> (numstate \<times> numacc) option" where
  "lex_num NMinus a c =
     (if c = 0x30 then Some (NZero, a)
      else if is_digit c then Some (NInt, a\<lparr>mant := c - 0x30\<rparr>)
      else None)"
| "lex_num NZero a c =
     (if c = 0x2E then Some (NDot, a)
      else if is_exp_mark c then Some (NExpMark, a)
      else None)"
| "lex_num NInt a c =
     (if is_digit c then Some (NInt, a\<lparr>mant := mant a * 10 + (c - 0x30)\<rparr>)
      else if c = 0x2E then Some (NDot, a)
      else if is_exp_mark c then Some (NExpMark, a)
      else None)"
| "lex_num NDot a c =
     (if is_digit c
      then Some (NFrac, a\<lparr>mant := mant a * 10 + (c - 0x30), fracd := fracd a + 1\<rparr>)
      else None)"
| "lex_num NFrac a c =
     (if is_digit c
      then Some (NFrac, a\<lparr>mant := mant a * 10 + (c - 0x30), fracd := fracd a + 1\<rparr>)
      else if is_exp_mark c then Some (NExpMark, a)
      else None)"
| "lex_num NExpMark a c =
     (if c = 0x2B then Some (NExpSign, a)
      else if c = 0x2D then Some (NExpSign, a\<lparr>eneg := True\<rparr>)
      else if is_digit c then Some (NExp, a\<lparr>expo := c - 0x30\<rparr>)
      else None)"
| "lex_num NExpSign a c =
     (if is_digit c then Some (NExp, a\<lparr>expo := c - 0x30\<rparr>) else None)"
| "lex_num NExp a c =
     (if is_digit c then Some (NExp, a\<lparr>expo := expo a * 10 + (c - 0x30)\<rparr>) else None)"

datatype lexmode =
    LIdle
  | LStr ustring
  | LEsc ustring
  | LUni ustring nat nat
  | LLit ustring tok
  | LNum numstate numacc

definition num0 :: numacc where
  "num0 = \<lparr>neg = False, mant = 0, fracd = 0, eneg = False, expo = 0\<rparr>"

text \<open>Between tokens. The token list is kept in reverse.\<close>

definition lex_idle :: "nat \<Rightarrow> tok list \<Rightarrow> (lexmode \<times> tok list) option" where
  "lex_idle c ts =
     (if c = 0x20 \<or> c = 0x09 \<or> c = 0x0A \<or> c = 0x0D then Some (LIdle, ts)
      else if c = 0x7B then Some (LIdle, TLBrace # ts)
      else if c = 0x7D then Some (LIdle, TRBrace # ts)
      else if c = 0x5B then Some (LIdle, TLBrack # ts)
      else if c = 0x5D then Some (LIdle, TRBrack # ts)
      else if c = 0x3A then Some (LIdle, TColon # ts)
      else if c = 0x2C then Some (LIdle, TComma # ts)
      else if c = 0x22 then Some (LStr [], ts)
      else if c = 0x2D then Some (LNum NMinus (num0\<lparr>neg := True\<rparr>), ts)
      else if c = 0x30 then Some (LNum NZero num0, ts)
      else if is_digit c then Some (LNum NInt (num0\<lparr>mant := c - 0x30\<rparr>), ts)
      else if c = 0x74 then Some (LLit (cu ''rue'') TTrue, ts)
      else if c = 0x66 then Some (LLit (cu ''alse'') TFalse, ts)
      else if c = 0x6E then Some (LLit (cu ''ull'') TNull, ts)
      else None)"

definition unescape :: "nat \<Rightarrow> nat option" where
  "unescape c =
     (if c = 0x22 then Some 0x22
      else if c = 0x5C then Some 0x5C
      else if c = 0x2F then Some 0x2F
      else if c = 0x62 then Some 0x08
      else if c = 0x66 then Some 0x0C
      else if c = 0x6E then Some 0x0A
      else if c = 0x72 then Some 0x0D
      else if c = 0x74 then Some 0x09
      else None)"

fun lex_step :: "lexmode \<times> tok list \<Rightarrow> nat \<Rightarrow> (lexmode \<times> tok list) option" where
  "lex_step (LIdle, ts) c = lex_idle c ts"
| "lex_step (LStr acc, ts) c =
     (if c = 0x22 then Some (LIdle, TStr (rev acc) # ts)
      else if c = 0x5C then Some (LEsc acc, ts)
      else if c < 0x20 then None
      else Some (LStr (c # acc), ts))"
| "lex_step (LEsc acc, ts) c =
     (if c = 0x75 then Some (LUni acc 0 4, ts)
      else (case unescape c of Some d \<Rightarrow> Some (LStr (d # acc), ts) | None \<Rightarrow> None))"
| "lex_step (LUni acc v k, ts) c =
     (case hex_val c of
        None \<Rightarrow> None
      | Some h \<Rightarrow>
          if k \<le> 1 then Some (LStr ((v * 16 + h) # acc), ts)
          else Some (LUni acc (v * 16 + h) (k - 1), ts))"
| "lex_step (LLit rest t, ts) c =
     (case rest of
        [] \<Rightarrow> None
      | r # rs \<Rightarrow>
          if c \<noteq> r then None
          else if rs = [] then Some (LIdle, t # ts)
          else Some (LLit rs t, ts))"
| "lex_step (LNum st a, ts) c =
     (case lex_num st a c of
        Some (st', a') \<Rightarrow> Some (LNum st' a', ts)
      | None \<Rightarrow> if num_final st then lex_idle c (TNum (num_value a) # ts) else None)"

definition lex_end :: "lexmode \<times> tok list \<Rightarrow> tok list option" where
  "lex_end st =
     (case st of
        (LIdle, ts) \<Rightarrow> Some (rev ts)
      | (LNum ns a, ts) \<Rightarrow> if num_final ns then Some (rev (TNum (num_value a) # ts)) else None
      | _ \<Rightarrow> None)"

fun lex_run :: "lexmode \<times> tok list \<Rightarrow> ustring \<Rightarrow> tok list option" where
  "lex_run st [] = lex_end st"
| "lex_run st (c # cs) = (case lex_step st c of None \<Rightarrow> None | Some st' \<Rightarrow> lex_run st' cs)"

definition tokenize :: "ustring \<Rightarrow> tok list option" where
  "tokenize s = lex_run (LIdle, []) s"

text \<open>
  The grammar over tokens, as a pushdown automaton: the stack holds the arrays and
  objects that are still open, the innermost first.
\<close>

datatype frame =
    FArr "json list"
  | FObj "(ustring \<times> json) list"
  | FKey "(ustring \<times> json) list" ustring

datatype expect = EValue | EArrStart | EObjStart | EKey | EColon | EAfter | EDone json

fun push_value :: "frame list \<Rightarrow> json \<Rightarrow> (expect \<times> frame list) option" where
  "push_value [] v = Some (EDone v, [])"
| "push_value (FArr es # st) v = Some (EAfter, FArr (v # es) # st)"
| "push_value (FKey ms k # st) v = Some (EAfter, FObj (AList.update k v ms) # st)"
| "push_value (FObj ms # st) v = None"

fun value_tok :: "frame list \<Rightarrow> tok \<Rightarrow> (expect \<times> frame list) option" where
  "value_tok st TLBrack = Some (EArrStart, FArr [] # st)"
| "value_tok st TLBrace = Some (EObjStart, FObj [] # st)"
| "value_tok st (TStr s) = push_value st (JString s)"
| "value_tok st (TNum r) = push_value st (JNumber r)"
| "value_tok st TTrue = push_value st (JBool True)"
| "value_tok st TFalse = push_value st (JBool False)"
| "value_tok st TNull = push_value st JNull"
| "value_tok st _ = None"

fun parse_step :: "expect \<times> frame list \<Rightarrow> tok \<Rightarrow> (expect \<times> frame list) option" where
  "parse_step (EValue, st) t = value_tok st t"
| "parse_step (EArrStart, FArr es # st) TRBrack = push_value st (JArray (rev es))"
| "parse_step (EArrStart, st) t = value_tok st t"
| "parse_step (EObjStart, FObj ms # st) TRBrace = push_value st (JObject ms)"
| "parse_step (EObjStart, FObj ms # st) (TStr k) = Some (EColon, FKey ms k # st)"
| "parse_step (EKey, FObj ms # st) (TStr k) = Some (EColon, FKey ms k # st)"
| "parse_step (EColon, st) TColon = Some (EValue, st)"
| "parse_step (EAfter, FArr es # st) TComma = Some (EValue, FArr es # st)"
| "parse_step (EAfter, FArr es # st) TRBrack = push_value st (JArray (rev es))"
| "parse_step (EAfter, FObj ms # st) TComma = Some (EKey, FObj ms # st)"
| "parse_step (EAfter, FObj ms # st) TRBrace = push_value st (JObject ms)"
| "parse_step _ _ = None"

fun parse_run :: "expect \<times> frame list \<Rightarrow> tok list \<Rightarrow> json option" where
  "parse_run (EDone v, st) [] = Some v"
| "parse_run _ [] = None"
| "parse_run ps (t # ts) = (case parse_step ps t of None \<Rightarrow> None | Some ps' \<Rightarrow> parse_run ps' ts)"

text \<open>\<^verbatim>\<open>JSON.parse\<close>: \<open>None\<close> is the SyntaxError it throws.\<close>

definition JSON_parse :: "ustring \<Rightarrow> json option" where
  "JSON_parse s = (case tokenize s of None \<Rightarrow> None | Some ts \<Rightarrow> parse_run (EValue, []) ts)"

section \<open>The loose JSON extractor\<close>

text \<open>
  \<^verbatim>\<open>/```json([\s\S]*?)```/i.exec(text)\<close>, reduced to its capture group. The lazy
  group takes the shortest run of code units after which the closing marker matches.
\<close>

fun lazy_until_fence :: "ustring \<Rightarrow> ustring option" where
  "lazy_until_fence [] = None"
| "lazy_until_fence (c # cs) =
     (if starts_with (cu ''```'') (c # cs) then Some []
      else map_option ((#) c) (lazy_until_fence cs))"

text \<open>The match is tried at each start position in turn, leftmost first.\<close>

fun fence_exec :: "ustring \<Rightarrow> ustring option" where
  "fence_exec [] = None"
| "fence_exec (c # cs) =
     (case match_ci (cu ''```json'') (c # cs) of
        None \<Rightarrow> fence_exec cs
      | Some rest \<Rightarrow>
          (case lazy_until_fence rest of
             None \<Rightarrow> fence_exec cs
           | Some candidate \<Rightarrow> Some candidate))"

text \<open>\<^verbatim>\<open>indexOf\<close> and \<^verbatim>\<open>lastIndexOf\<close> of one code unit; \<open>None\<close> is the result -1.\<close>

fun indexOf :: "nat \<Rightarrow> ustring \<Rightarrow> nat option" where
  "indexOf x [] = None"
| "indexOf x (c # cs) = (if c = x then Some 0 else map_option Suc (indexOf x cs))"

fun lastIndexOf :: "nat \<Rightarrow> ustring \<Rightarrow> nat option" where
  "lastIndexOf x [] = None"
| "lastIndexOf x (c # cs) =
     (case lastIndexOf x cs of
        Some i \<Rightarrow> Some (Suc i)
      | None \<Rightarrow> if c = x then Some 0 else None)"

text \<open>\<^verbatim>\<open>s.slice(i, j)\<close> for indices within the string.\<close>

definition slice :: "nat \<Rightarrow> nat \<Rightarrow> ustring \<Rightarrow> ustring" where
  "slice i j s = take (j - i) (drop i s)"

definition brace_span :: "ustring \<Rightarrow> ustring option" where
  "brace_span txt =
     (case (indexOf 0x7B txt, lastIndexOf 0x7D txt) of
        (Some first_i, Some last_i) \<Rightarrow>
          if last_i > first_i then Some (slice first_i (last_i + 1) txt) else None
      | _ \<Rightarrow> None)"

text \<open>
  \<^verbatim>\<open>raw.replace(/,\s*X/g, "X")\<close> for a closing bracket \<open>X\<close>: at each position a
  comma, the longest run of white space and then \<open>X\<close> are replaced by \<open>X\<close>, and the
  search goes on after the match; elsewhere the code unit is kept.
\<close>

function replace_trailing_comma :: "nat \<Rightarrow> ustring \<Rightarrow> ustring" where
  "replace_trailing_comma x [] = []"
| "replace_trailing_comma x (c # cs) =
     (if c = 0x2C \<and> starts_with [x] (dropWhile is_space cs)
      then x # replace_trailing_comma x (tl (dropWhile is_space cs))
      else c # replace_trailing_comma x cs)"
  by pat_completeness auto
termination
proof (relation "measure (\<lambda>(x, s). length s)")
  fix x :: nat and c :: nat and cs :: ustring
  have "length (tl (dropWhile is_space cs)) \<le> length (dropWhile is_space cs)"
    by simp
  also have "\<dots> \<le> length cs"
    by (rule length_dropWhile_le)
  finally show "((x, tl (dropWhile is_space cs)), (x, c # cs)) \<in> measure (\<lambda>(x, s). length s)"
    by simp
qed simp_all

definition repair_trailing_commas :: "ustring \<Rightarrow> ustring" where
  "repair_trailing_commas raw = replace_trailing_comma 0x5D (replace_trailing_comma 0x7D raw)"

text \<open>
  \<^verbatim>\<open>extractJsonLoose\<close>. Its result \<^verbatim>\<open>null\<close> is \<open>JNull\<close>, which is also what a
  candidate \<^verbatim>\<open>null\<close> parses to. \<^verbatim>\<open>candidate ?? ...\<close> keeps an empty capture;
  \<^verbatim>\<open>!raw\<close> then holds for it as for no candidate at all.
\<close>

definition extractJsonLoose :: "ustring \<Rightarrow> json" where
  "extractJsonLoose txt =
     (let raw = (case fence_exec txt of Some candidate \<Rightarrow> Some candidate | None \<Rightarrow> brace_span txt)
      in case raw of
           None \<Rightarrow> JNull
         | Some r \<Rightarrow>
             if r = [] then JNull
             else (case JSON_parse r of
                     Some v \<Rightarrow> v
                   | None \<Rightarrow>
                       (case JSON_parse (repair_trailing_commas r) of
                          Some v \<Rightarrow> v
                        | None \<Rightarrow> JNull)))"

text \<open>\<^verbatim>\<open>/pattern/i.test(s)\<close> for a literal pattern: the match is tried at every position.\<close>

fun regex_test_ci :: "ustring \<Rightarrow> ustring \<Rightarrow> bool" where
  "regex_test_ci p [] = (match_ci p [] \<noteq> None)"
| "regex_test_ci p (c # cs) = (match_ci p (c # cs) \<noteq> None \<or> regex_test_ci p cs)"

section \<open>Values of JavaScript as far as the handlers look at them\<close>

text \<open>
  \<^verbatim>\<open>v.k\<close> for a value that came out of \<^verbatim>\<open>JSON.parse\<close> and is not
  \<^verbatim>\<open>null\<close>; \<open>None\<close> is \<^verbatim>\<open>undefined\<close>. Only an object has members of its
  own, and none of the names the handlers read is inherited.
\<close>

fun get_prop :: "json \<Rightarrow> ustring \<Rightarrow> json option" where
  "get_prop (JObject ms) k = map_of ms k"
| "get_prop _ k = None"

text \<open>Truthiness of a value, and of \<^verbatim>\<open>undefined\<close>.\<close>

fun truthy :: "json option \<Rightarrow> bool" where
  "truthy None = False"
| "truthy (Some JNull) = False"
| "truthy (Some (JBool b)) = b"
| "truthy (Some (JNumber r)) = (r \<noteq> 0)"
| "truthy (Some (JString s)) = (s \<noteq> [])"
| "truthy (Some (JArray vs)) = True"
| "truthy (Some (JObject ms)) = True"

section \<open>The cache of the \<^verbatim>\<open>lru-cache\<close> package\<close>

text \<open>
  The entries, the most recently used first. \<open>get\<close> makes the entry the most
  recent one; \<open>set\<close> stores the entry as the most recent one and, beyond \<open>max\<close>
  entries, drops the least recently used.
\<close>

type_synonym ('k, 'v) lru = "('k \<times> 'v) list"

definition lru_get :: "'k \<Rightarrow> ('k, 'v) lru \<Rightarrow> 'v option \<times> ('k, 'v) lru" where
  "lru_get k c =
     (case map_of c k of
        None \<Rightarrow> (None, c)
      | Some v \<Rightarrow> (Some v, (k, v) # filter (\<lambda>e. fst e \<noteq> k) c))"

definition lru_set :: "nat \<Rightarrow> 'k \<Rightarrow> 'v \<Rightarrow> ('k, 'v) lru \<Rightarrow> ('k, 'v) lru" where
  "lru_set cap k v c = take cap ((k, v) # filter (\<lambda>e. fst e \<noteq> k) c)"

text \<open>
  With a time to live, an entry carries the instant it was set. \<open>get\<close> on an entry
  older than the time to live deletes it and returns \<^verbatim>\<open>undefined\<close>.
\<close>

definition ttl_get ::
  "int \<Rightarrow> int \<Rightarrow> 'k \<Rightarrow> ('k, 'v \<times> int) lru \<Rightarrow> 'v option \<times> ('k, 'v \<times> int) lru" where
  "ttl_get ttl now k c =
     (case map_of c k of
        None \<Rightarrow> (None, c)
      | Some (v, start) \<Rightarrow>
          if now - start > ttl then (None, filter (\<lambda>e. fst e \<noteq> k) c)
          else (Some v, (k, (v, start)) # filter (\<lambda>e. fst e \<noteq> k) c))"

definition ttl_set ::
  "nat \<Rightarrow> int \<Rightarrow> 'k \<Rightarrow> 'v \<Rightarrow> ('k, 'v \<times> int) lru \<Rightarrow> ('k, 'v \<times> int) lru" where
  "ttl_set cap now k v c = take cap ((k, (v, now)) # filter (\<lambda>e. fst e \<noteq> k) c)"

section \<open>Configuration\<close>

text \<open>
  The module constants read from the environment. \<open>is_url\<close> stands for the URL
  check of the schema library and \<open>to_number\<close> for ECMAScript's ToNumber on a string,
  an array or an object (\<open>None\<close> is NaN); neither is part of this repository. The
  limits are natural numbers, as their defaults are.
\<close>

record config =
  allowedOrigins :: "ustring list"
  FALLBACK_LINE :: ustring
  MAX_FILES :: nat
  MAX_FILE_MB :: nat
  MAX_TOTAL_MB :: nat
  is_url :: "ustring \<Rightarrow> bool"
  to_number :: "json \<Rightarrow> rat option"

text \<open>
  \<^verbatim>\<open>(process.env.ALLOWED_ORIGINS || "").split(",").map((s) => s.trim()).filter(Boolean)\<close>;
  \<open>None\<close> is the unset variable.
\<close>

definition parse_origins :: "ustring option \<Rightarrow> ustring list" where
  "parse_origins env =
     filter (\<lambda>s. s \<noteq> []) (map trim (split_on 0x2C (case env of None \<Rightarrow> [] | Some s \<Rightarrow> s)))"

definition RATE_MAX :: nat where
  "RATE_MAX = 5"

definition RATE_WINDOW_MS :: int where
  "RATE_WINDOW_MS = 10 * 60 * 1000"

definition CACHE_MAX :: nat where
  "CACHE_MAX = 5000"

section \<open>Requests and the helpers shared by the two handlers\<close>

record request =
  req_method :: ustring
  req_origin :: "ustring option"
  req_forwarded_for :: "ustring option"
  req_remote_address :: "ustring option"
  req_user_agent :: "ustring option"
  req_body :: ustring

text \<open>
  \<^verbatim>\<open>(xf.split(",")[0] || req.socket.remoteAddress || "unknown").trim()\<close> with
  \<^verbatim>\<open>xf = headers["x-forwarded-for"] || ""\<close>.
\<close>

definition getIP :: "request \<Rightarrow> ustring" where
  "getIP req =
     (let xf = (case req_forwarded_for req of None \<Rightarrow> [] | Some h \<Rightarrow> h);
          head = split_first 0x2C xf
      in trim (if head \<noteq> [] then head
               else (case req_remote_address req of
                       None \<Rightarrow> cu ''unknown''
                     | Some a \<Rightarrow> if a \<noteq> [] then a else cu ''unknown'')))"

text \<open>
  \<^verbatim>\<open>rateLimit\<close>: the instants of the caller that are younger than the window are
  kept; with \<open>RATE_MAX\<close> of them the request is refused and nothing is stored,
  otherwise the present instant is appended and the list stored.
\<close>

definition rateLimit ::
  "int \<Rightarrow> ustring \<Rightarrow> (ustring, int list) lru \<Rightarrow> bool \<times> (ustring, int list) lru" where
  "rateLimit now ip rateCache =
     (case lru_get ip rateCache of
        (hit, cache1) \<Rightarrow>
          let arr = filter (\<lambda>t. now - t < RATE_WINDOW_MS) (case hit of None \<Rightarrow> [] | Some a \<Rightarrow> a)
          in if length arr \<ge> RATE_MAX then (False, cache1)
             else (True, lru_set CACHE_MAX ip (arr @ [now]) cache1))"

text \<open>\<^verbatim>\<open>readJson\<close>: the body, or \<^verbatim>\<open>{}\<close> for an empty one, parsed; \<open>None\<close> is the rejection.\<close>

definition readJson :: "ustring \<Rightarrow> json option" where
  "readJson body = JSON_parse (if body = [] then cu ''{}'' else body)"

definition apology :: ustring where
  "apology = cu ''We couldn'' @ [0x2019] @
     cu ''t process your request right now. Please try again in a few minutes.''"

section \<open>The estimate handler\<close>

text \<open>
  \<^verbatim>\<open>BodySchema.safeParse\<close>. An issue is its code and the path of the value it is
  about. A body that is not an object gives one issue at the empty path; in an object
  every field is checked and the issues are collected in the order of the schema.
\<close>

datatype path_elem = PKey ustring | PIdx nat

datatype issue_code = invalid_type | too_small | too_big | invalid_string

datatype issue = Issue issue_code "path_elem list"

record parsed_body =
  pb_zip :: ustring
  pb_description :: ustring
  pb_image_urls :: "ustring list"

text \<open>\<^verbatim>\<open>z.string().trim().min(lo).max(hi)\<close>: the issues and the trimmed string.\<close>

fun string_field :: "ustring \<Rightarrow> nat \<Rightarrow> nat \<Rightarrow> json option \<Rightarrow> issue list \<times> ustring" where
  "string_field key lo hi (Some (JString s)) =
     (let t = trim s
      in ((if length t < lo then [Issue too_small [PKey key]] else []) @
          (if length t > hi then [Issue too_big [PKey key]] else []), t))"
| "string_field key lo hi _ = ([Issue invalid_type [PKey key]], [])"

text \<open>The elements of \<^verbatim>\<open>z.array(z.string().url())\<close>, from index \<open>i\<close> on.\<close>

fun url_elems :: "(ustring \<Rightarrow> bool) \<Rightarrow> ustring \<Rightarrow> nat \<Rightarrow> json list \<Rightarrow> issue list \<times> ustring list" where
  "url_elems ok key i [] = ([], [])"
| "url_elems ok key i (JString s # vs) =
     (case url_elems ok key (Suc i) vs of
        (iss, us) \<Rightarrow>
          ((if ok s then [] else [Issue invalid_string [PKey key, PIdx i]]) @ iss, s # us))"
| "url_elems ok key i (v # vs) =
     (case url_elems ok key (Suc i) vs of
        (iss, us) \<Rightarrow> (Issue invalid_type [PKey key, PIdx i] # iss, us))"

fun url_array :: "config \<Rightarrow> ustring \<Rightarrow> json option \<Rightarrow> issue list \<times> ustring list" where
  "url_array cfg key (Some (JArray vs)) =
     (case url_elems (is_url cfg) key 0 vs of
        (iss, us) \<Rightarrow>
          ((if length vs > MAX_FILES cfg then [Issue too_big [PKey key]] else []) @ iss, us))"
| "url_array cfg key _ = ([Issue invalid_type [PKey key]], [])"

definition BodySchema_safeParse :: "config \<Rightarrow> json \<Rightarrow> issue list + parsed_body" where
  "BodySchema_safeParse cfg body =
     (case body of
        JObject ms \<Rightarrow>
          (case string_field (cu ''zip'') 5 10 (map_of ms (cu ''zip'')) of
             (zi, z) \<Rightarrow>
          (case string_field (cu ''description'') 3 5000 (map_of ms (cu ''description'')) of
             (di, d) \<Rightarrow>
          (case url_array cfg (cu ''image_urls'') (map_of ms (cu ''image_urls'')) of
             (ui, us) \<Rightarrow>
               if zi @ di @ ui = []
               then Inr \<lparr>pb_zip = z, pb_description = d, pb_image_urls = us\<rparr>
               else Inl (zi @ di @ ui))))
      | _ \<Rightarrow> Inl [Issue invalid_type []])"

text \<open>
  What one run of the handler gets from outside: the clock read by \<^verbatim>\<open>rateLimit\<close>,
  the outcome of the model call (its \<^verbatim>\<open>output_text\<close>, which may be missing, or an
  exception), whether the write to the store succeeds, and the generated identifier,
  time stamps and timing.
\<close>

datatype ai_outcome = AiThrows | AiOutput "ustring option"

record est_env =
  env_now :: int
  env_ai :: ai_outcome
  env_put_ok :: bool
  env_id :: ustring
  env_iso :: ustring
  env_ym :: ustring
  env_ai_ms :: int

record quote_record =
  q_id :: ustring
  q_ts :: ustring
  q_ip :: ustring
  q_zip :: ustring
  q_image_count :: nat
  q_serviceable :: bool
  q_customer_line :: ustring
  q_model_text :: ustring
  q_data :: json
  q_description :: ustring
  q_image_urls :: "ustring list"
  q_ai_ms :: int

datatype log_entry = EstimateCreated ustring | EstimateError | BlobUploadCompleted | SignError

record est_state =
  rateCache :: "(ustring, int list) lru"
  blobs :: "(ustring \<times> quote_record) list"
  est_log :: "log_entry list"

datatype est_body =
    BEmpty
  | BPlain ustring
  | BRateLimited ustring
  | BInvalid ustring "issue list"
  | BQuote bool ustring json

record response =
  status :: nat
  allow_origin :: "ustring option"
  body :: est_body

text \<open>\<^verbatim>\<open>!origin || !allowedOrigins.includes(origin)\<close> is the negation of this.\<close>

definition origin_listed :: "config \<Rightarrow> ustring option \<Rightarrow> bool" where
  "origin_listed cfg origin \<longleftrightarrow>
     (case origin of None \<Rightarrow> False | Some ori \<Rightarrow> ori \<noteq> [] \<and> ori \<in> set (allowedOrigins cfg))"

text \<open>\<^verbatim>\<open>setCors\<close> of the estimate handler: the value of Access-Control-Allow-Origin, if set.\<close>

definition setCors :: "config \<Rightarrow> ustring option \<Rightarrow> ustring option" where
  "setCors cfg origin = (if origin_listed cfg origin then origin else None)"

text \<open>The text of the model, its first line for the customer, and the flag.\<close>

definition model_text :: "ustring option \<Rightarrow> ustring" where
  "model_text out = (case out of None \<Rightarrow> [] | Some t \<Rightarrow> trim t)"

definition customer_line_of :: "config \<Rightarrow> ustring \<Rightarrow> ustring" where
  "customer_line_of cfg txt =
     trim (if split_first 0x0A txt \<noteq> [] then split_first 0x0A txt else FALLBACK_LINE cfg)"

definition serviceable_of :: "json \<Rightarrow> ustring \<Rightarrow> bool" where
  "serviceable_of parsedJson customer_line =
     (case (if parsedJson = JNull then None else get_prop parsedJson (cu ''serviceable'')) of
        Some (JBool b) \<Rightarrow> b
      | _ \<Rightarrow> \<not> regex_test_ci (cu ''outside'') customer_line)"

definition data_of :: "json \<Rightarrow> json" where
  "data_of parsedJson = (if parsedJson = JNull then JObject [] else parsedJson)"

text \<open>The response of the \<^verbatim>\<open>catch\<close> block.\<close>

definition fallback_response :: "config \<Rightarrow> ustring option \<Rightarrow> response" where
  "fallback_response cfg cors =
     \<lparr>status = 200, allow_origin = cors, body = BQuote True (FALLBACK_LINE cfg) (JObject [])\<rparr>"

definition failed :: "config \<Rightarrow> ustring option \<Rightarrow> est_state \<Rightarrow> response \<times> est_state" where
  "failed cfg cors s = (fallback_response cfg cors, s\<lparr>est_log := est_log s @ [EstimateError]\<rparr>)"

text \<open>
  The part of the handler inside \<^verbatim>\<open>try\<close>, after the body is validated: the model
  call, the extraction, the write of the record, the response.
\<close>

definition estimate ::
  "config \<Rightarrow> est_env \<Rightarrow> ustring option \<Rightarrow> ustring \<Rightarrow> parsed_body \<Rightarrow> est_state \<Rightarrow> response \<times> est_state" where
  "estimate cfg env cors ip parsed s =
     (case env_ai env of
        AiThrows \<Rightarrow> failed cfg cors s
      | AiOutput out \<Rightarrow>
          let txt = model_text out;
              customer_line = customer_line_of cfg txt;
              parsedJson = extractJsonLoose txt;
              serviceable = serviceable_of parsedJson customer_line;
              rec = \<lparr>q_id = env_id env, q_ts = env_iso env, q_ip = ip, q_zip = pb_zip parsed,
                        q_image_count = length (pb_image_urls parsed), q_serviceable = serviceable,
                        q_customer_line = customer_line, q_model_text = txt,
                        q_data = data_of parsedJson, q_description = pb_description parsed,
                        q_image_urls = pb_image_urls parsed, q_ai_ms = env_ai_ms env\<rparr>;
              path = cu ''estimates/'' @ env_ym env @ cu ''/'' @ env_id env @ cu ''.json''
          in if \<not> env_put_ok env then failed cfg cors s
             else (\<lparr>status = 200, allow_origin = cors,
                    body = BQuote serviceable
                             (if customer_line = [] then FALLBACK_LINE cfg else customer_line)
                             (data_of parsedJson)\<rparr>,
                   s\<lparr>blobs := blobs s @ [(path, rec)],
                     est_log := est_log s @ [EstimateCreated path]\<rparr>))"

definition handler :: "config \<Rightarrow> est_env \<Rightarrow> request \<Rightarrow> est_state \<Rightarrow> response \<times> est_state" where
  "handler cfg env req s =
     (let origin = req_origin req;
          cors = setCors cfg origin
      in if req_method req = cu ''OPTIONS''
         then (\<lparr>status = 204, allow_origin = cors, body = BEmpty\<rparr>, s)
         else if req_method req \<noteq> cu ''POST''
         then (\<lparr>status = 405, allow_origin = cors, body = BPlain (cu ''Method Not Allowed'')\<rparr>, s)
         else if \<not> origin_listed cfg origin
         then (\<lparr>status = 403, allow_origin = cors, body = BPlain (cu ''Forbidden'')\<rparr>, s)
         else
           let ip = getIP req
           in (case rateLimit (env_now env) ip (rateCache s) of
                 (admitted, cache') \<Rightarrow>
                   let s1 = s\<lparr>rateCache := cache'\<rparr>
                   in if \<not> admitted
                      then (\<lparr>status = 429, allow_origin = cors, body = BRateLimited apology\<rparr>, s1)
                      else (case readJson (req_body req) of
                              None \<Rightarrow> failed cfg cors s1
                            | Some b \<Rightarrow>
                                (case BodySchema_safeParse cfg b of
                                   Inl issues \<Rightarrow>
                                     (\<lparr>status = 400, allow_origin = cors,
                                       body = BInvalid apology issues\<rparr>, s1)
                                 | Inr parsed \<Rightarrow> estimate cfg env cors ip parsed s1))))"

section \<open>The upload-signing handler\<close>

text \<open>
  The errors thrown on the way to a token. The response shows the message of the three
  limit errors, which contain the word \<^verbatim>\<open>exceeds\<close>, and an apology for any other.
\<close>

datatype sign_error = FileExceeds nat | BatchExceedsMB nat | BatchExceedsFiles nat | OtherError

record token_options =
  allowedContentTypes :: "ustring list"
  addRandomSuffix :: bool
  pathname :: ustring
  tp_ip :: ustring
  tp_ua :: ustring
  tp_batchId :: json

datatype sign_body =
    SEmpty
  | SPlain ustring
  | SToken ustring token_options
  | SCompleted
  | SFailed sign_error

record sign_response =
  s_status :: nat
  s_allow_origin :: "ustring option"
  s_body :: sign_body

text \<open>
  The counters are keyed by the value of \<^verbatim>\<open>meta.batchId\<close> as it came out of
  \<^verbatim>\<open>JSON.parse\<close>. An array or an object is a fresh key at every request: it is
  never found, and storing it adds an entry.
\<close>

type_synonym batch_cache = "(json, nat \<times> int) lru"

record sign_state =
  sign_rateCache :: "(ustring, int list) lru"
  batchCounts :: batch_cache
  sign_log :: "log_entry list"

text \<open>
  What one run gets from outside: the clock, the year and month and the decimal digits
  of the clock as the generated path uses them, the client token minted by the storage
  library (\<open>None\<close> when that throws) and whether the signature of a completion
  callback verifies.
\<close>

record sign_env =
  senv_now :: int
  senv_ym :: ustring
  senv_now_digits :: ustring
  senv_token :: "ustring option"
  senv_sig_ok :: bool

definition is_ref :: "json \<Rightarrow> bool" where
  "is_ref v = (case v of JArray _ \<Rightarrow> True | JObject _ \<Rightarrow> True | _ \<Rightarrow> False)"

definition batch_get :: "int \<Rightarrow> json \<Rightarrow> batch_cache \<Rightarrow> nat option \<times> batch_cache" where
  "batch_get now k c = (if is_ref k then (None, c) else ttl_get RATE_WINDOW_MS now k c)"

definition batch_set :: "int \<Rightarrow> json \<Rightarrow> nat \<Rightarrow> batch_cache \<Rightarrow> batch_cache" where
  "batch_set now k v c =
     (if is_ref k then take CACHE_MAX ((k, (v, now)) # c) else ttl_set CACHE_MAX now k v c)"

text \<open>\<^verbatim>\<open>setCors\<close> of this handler.\<close>

definition sign_setCors :: "config \<Rightarrow> ustring option \<Rightarrow> ustring option" where
  "sign_setCors cfg origin =
     (if allowedOrigins cfg = []
      then Some (case origin of None \<Rightarrow> cu ''*'' | Some ori \<Rightarrow> if ori = [] then cu ''*'' else ori)
      else if origin_listed cfg origin then origin
      else None)"

text \<open>\<^verbatim>\<open>meta\<close>: the parsed client payload, or \<^verbatim>\<open>{}\<close> when there is none or it does not parse.\<close>

definition parse_meta :: "ustring option \<Rightarrow> json" where
  "parse_meta clientPayload =
     (case clientPayload of
        None \<Rightarrow> JObject []
      | Some p \<Rightarrow>
          if p = [] then JObject []
          else (case JSON_parse p of Some m \<Rightarrow> m | None \<Rightarrow> JObject []))"

definition number_of :: "config \<Rightarrow> json \<Rightarrow> rat option" where
  "number_of cfg v =
     (case v of
        JNumber r \<Rightarrow> Some r
      | JBool b \<Rightarrow> Some (if b then 1 else 0)
      | JNull \<Rightarrow> Some 0
      | _ \<Rightarrow> to_number cfg v)"

text \<open>\<^verbatim>\<open>x ? x / (1024 * 1024) : 0\<close>; \<open>None\<close> is NaN.\<close>

definition megabytes :: "config \<Rightarrow> json option \<Rightarrow> rat option" where
  "megabytes cfg x =
     (case x of
        None \<Rightarrow> Some 0
      | Some v \<Rightarrow>
          if truthy (Some v) then map_option (\<lambda>r. r / (1024 * 1024)) (number_of cfg v)
          else Some 0)"

definition exceeds :: "rat option \<Rightarrow> nat \<Rightarrow> bool" where
  "exceeds mb bound = (case mb of None \<Rightarrow> False | Some r \<Rightarrow> r > of_nat bound)"

text \<open>The block guarded by \<^verbatim>\<open>if (batchId)\<close>: the count is stored before it is compared.\<close>

definition count_batch ::
  "config \<Rightarrow> int \<Rightarrow> json \<Rightarrow> batch_cache \<Rightarrow> sign_error option \<times> batch_cache" where
  "count_batch cfg now batchId counts =
     (if truthy (Some batchId)
      then (case batch_get now batchId counts of
              (hit, c1) \<Rightarrow>
                let count = (case hit of None \<Rightarrow> 0 | Some n \<Rightarrow> n) + 1;
                    c2 = batch_set now batchId count c1
                in if count > MAX_FILES cfg then (Some (BatchExceedsFiles (MAX_FILES cfg)), c2)
                   else (None, c2))
      else (None, counts))"

definition onBeforeGenerateToken ::
  "config \<Rightarrow> sign_env \<Rightarrow> request \<Rightarrow> ustring \<Rightarrow> ustring \<Rightarrow> ustring option \<Rightarrow> batch_cache
     \<Rightarrow> (sign_error + token_options) \<times> batch_cache" where
  "onBeforeGenerateToken cfg env req ip path clientPayload counts =
     (let meta = parse_meta clientPayload
      in if meta = JNull then (Inl OtherError, counts)
         else
           let sizeMB = megabytes cfg (get_prop meta (cu ''size''));
               totalMB = megabytes cfg (get_prop meta (cu ''batchTotal''))
           in if exceeds sizeMB (MAX_FILE_MB cfg) then (Inl (FileExceeds (MAX_FILE_MB cfg)), counts)
              else if exceeds totalMB (MAX_TOTAL_MB cfg)
              then (Inl (BatchExceedsMB (MAX_TOTAL_MB cfg)), counts)
              else
                let batchId = (case get_prop meta (cu ''batchId'') of
                                 None \<Rightarrow> JString []
                               | Some b \<Rightarrow> if truthy (Some b) then b else JString [])
                in (case count_batch cfg (senv_now env) batchId counts of
                      (Some e, counts') \<Rightarrow> (Inl e, counts')
                    | (None, counts') \<Rightarrow>
                        let seg = last (split_on 0x2F path);
                            safeName = (if seg \<noteq> [] then seg
                                        else cu ''upload-'' @ senv_now_digits env @ cu ''.jpg'')
                        in (Inr \<lparr>allowedContentTypes =
                                    [cu ''image/jpeg'', cu ''image/png'', cu ''image/webp''],
                                  addRandomSuffix = True,
                                  pathname = cu ''uploads/'' @ senv_ym env @ cu ''/'' @ safeName,
                                  tp_ip = ip,
                                  tp_ua = (case req_user_agent req of None \<Rightarrow> [] | Some u \<Rightarrow> u),
                                  tp_batchId = batchId\<rparr>, counts')))"

text \<open>
  The event \<^verbatim>\<open>handleUpload\<close> of the storage library reads from the body: a request
  for a client token, with the path and the client payload handed to
  \<^verbatim>\<open>onBeforeGenerateToken\<close>, or the notice of a completed upload. Any other body
  makes \<^verbatim>\<open>handleUpload\<close> throw.
\<close>

datatype upload_event = GenerateClientToken ustring "ustring option" | UploadCompleted

definition decode_event :: "json \<Rightarrow> upload_event option" where
  "decode_event b =
     (case get_prop b (cu ''type'') of
        Some (JString t) \<Rightarrow>
          if t = cu ''blob.upload-completed'' then Some UploadCompleted
          else if t = cu ''blob.generate-client-token'' then
            (case get_prop b (cu ''payload'') of
               Some pl \<Rightarrow>
                 (case get_prop pl (cu ''pathname'') of
                    Some (JString p) \<Rightarrow>
                      (case get_prop pl (cu ''clientPayload'') of
                         None \<Rightarrow> Some (GenerateClientToken p None)
                       | Some JNull \<Rightarrow> Some (GenerateClientToken p None)
                       | Some (JString c) \<Rightarrow> Some (GenerateClientToken p (Some c))
                       | _ \<Rightarrow> None)
                  | _ \<Rightarrow> None)
             | None \<Rightarrow> None)
          else None
      | _ \<Rightarrow> None)"

definition sign_failed ::
  "ustring option \<Rightarrow> sign_error \<Rightarrow> sign_state \<Rightarrow> sign_response \<times> sign_state" where
  "sign_failed cors e s =
     (\<lparr>s_status = 400, s_allow_origin = cors, s_body = SFailed e\<rparr>,
      s\<lparr>sign_log := sign_log s @ [SignError]\<rparr>)"

definition sign_handler ::
  "config \<Rightarrow> sign_env \<Rightarrow> request \<Rightarrow> sign_state \<Rightarrow> sign_response \<times> sign_state" where
  "sign_handler cfg env req s =
     (let origin = req_origin req;
          cors = sign_setCors cfg origin
      in if req_method req = cu ''OPTIONS''
         then (\<lparr>s_status = 204, s_allow_origin = cors, s_body = SEmpty\<rparr>, s)
         else if req_method req \<noteq> cu ''POST''
         then (\<lparr>s_status = 405, s_allow_origin = cors, s_body = SPlain (cu ''Method Not Allowed'')\<rparr>, s)
         else if allowedOrigins cfg \<noteq> [] \<and> \<not> origin_listed cfg origin
         then (\<lparr>s_status = 403, s_allow_origin = cors, s_body = SPlain (cu ''Forbidden'')\<rparr>, s)
         else
           let ip = getIP req
           in (case rateLimit (senv_now env) ip (sign_rateCache s) of
                 (admitted, cache') \<Rightarrow>
                   let s1 = s\<lparr>sign_rateCache := cache'\<rparr>
                   in if \<not> admitted
                      then (\<lparr>s_status = 429, s_allow_origin = cors, s_body = SPlain apology\<rparr>, s1)
                      else (case readJson (req_body req) of
                              None \<Rightarrow> sign_failed cors OtherError s1
                            | Some b \<Rightarrow>
                                (case decode_event b of
                                   None \<Rightarrow> sign_failed cors OtherError s1
                                 | Some UploadCompleted \<Rightarrow>
                                     if senv_sig_ok env
                                     then (\<lparr>s_status = 200, s_allow_origin = cors, s_body = SCompleted\<rparr>,
                                           s1\<lparr>sign_log := sign_log s1 @ [BlobUploadCompleted]\<rparr>)
                                     else sign_failed cors OtherError s1
                                 | Some (GenerateClientToken p cp) \<Rightarrow>
                                     (case onBeforeGenerateToken cfg env req ip p cp (batchCounts s1) of
                                        (Inl e, counts') \<Rightarrow>
                                          sign_failed cors e (s1\<lparr>batchCounts := counts'\<rparr>)
                                      | (Inr opts, counts') \<Rightarrow>
                                          (case senv_token env of
                                             None \<Rightarrow>
                                               sign_failed cors OtherError (s1\<lparr>batchCounts := counts'\<rparr>)
                                           | Some tok \<Rightarrow>
                                               (\<lparr>s_status = 200, s_allow_origin = cors,
                                                 s_body = SToken tok opts\<rparr>,
                                                s1\<lparr>batchCounts := counts'\<rparr>)))))))"

text \<open>A sequence of requests to the upload-signing handler, each with what it gets from outside.\<close>

fun sign_run :: "config \<Rightarrow> (sign_env \<times> request) list \<Rightarrow> sign_state \<Rightarrow> sign_state" where
  "sign_run cfg [] s = s"
| "sign_run cfg ((env, req) # rest) s = sign_run cfg rest (snd (sign_handler cfg env req s))"

text \<open>A sequence of requests to the estimate handler: the state it leaves.\<close>

fun est_run :: "config \<Rightarrow> (est_env \<times> request) list \<Rightarrow> est_state \<Rightarrow> est_state" where
  "est_run cfg [] s = s"
| "est_run cfg ((env, req) # rest) s = est_run cfg rest (snd (handler cfg env req s))"

section \<open>Notions the properties are stated with\<close>

text \<open>A marker that opens a fence labelled \<^verbatim>\<open>json\<close>, in any letter case.\<close>

definition json_label :: "ustring \<Rightarrow> bool" where
  "json_label s \<longleftrightarrow> map canon s = map canon (cu ''```json'')"

text \<open>
  \<open>inner\<close> is the interior of the first fence labelled \<^verbatim>\<open>json\<close> of the text: the
  text is some prose, the opening marker, \<open>inner\<close>, the closing marker and a rest; no
  opening marker starts earlier, and the closing marker is the first triple backtick
  after the opening one.
\<close>

definition first_json_fence :: "ustring \<Rightarrow> ustring \<Rightarrow> bool" where
  "first_json_fence txt inner \<longleftrightarrow>
     (\<exists>pre opn post.
        txt = pre @ opn @ inner @ cu ''```'' @ post \<and>
        json_label opn \<and>
        (\<forall>k<length pre. \<not> json_label (take 7 (drop k txt))) \<and>
        (\<forall>k<length inner. take 3 (drop k (inner @ cu ''```'')) \<noteq> cu ''```''))"

text \<open>\<open>s\<close> contains \<open>p\<close> as a substring, up to the case of ASCII letters.\<close>

definition contains_ci :: "ustring \<Rightarrow> ustring \<Rightarrow> bool" where
  "contains_ci p s \<longleftrightarrow> (\<exists>a m b. s = a @ m @ b \<and> map canon m = map canon p)"

text \<open>The instants recorded for a caller, and the count stored for a batch.\<close>

definition recorded :: "ustring \<Rightarrow> (ustring, int list) lru \<Rightarrow> int list" where
  "recorded ip c = (case map_of c ip of None \<Rightarrow> [] | Some a \<Rightarrow> a)"

definition stored_count :: "json \<Rightarrow> batch_cache \<Rightarrow> nat option" where
  "stored_count k c = map_option fst (map_of c k)"

text \<open>
  The request was admitted by the rate limiter: the response is one of those the
  handler gives after the rate check (200 or 400), not 204, 405, 403 or 429.
\<close>

definition was_admitted :: "response \<Rightarrow> bool" where
  "was_admitted r \<longleftrightarrow> status r = 200 \<or> status r = 400"

text \<open>The instants at which requests of the caller were admitted during a sequence of requests.\<close>

fun admitted_instants ::
  "config \<Rightarrow> ustring \<Rightarrow> (est_env \<times> request) list \<Rightarrow> est_state \<Rightarrow> int list" where
  "admitted_instants cfg ip [] s = []"
| "admitted_instants cfg ip ((env, req) # rest) s =
     (if getIP req = ip \<and> was_admitted (fst (handler cfg env req s)) then [env_now env] else []) @
     admitted_instants cfg ip rest (snd (handler cfg env req s))"

text \<open>
  The entry of the caller is never evicted during a sequence of requests: a request
  that finds the caller in the rate cache leaves it there.
\<close>

fun retained :: "config \<Rightarrow> ustring \<Rightarrow> (est_env \<times> request) list \<Rightarrow> est_state \<Rightarrow> bool" where
  "retained cfg ip [] s = True"
| "retained cfg ip ((env, req) # rest) s =
     ((map_of (rateCache s) ip \<noteq> None \<longrightarrow>
         map_of (rateCache (snd (handler cfg env req s))) ip \<noteq> None) \<and>
      retained cfg ip rest (snd (handler cfg env req s)))"

section \<open>Concrete inputs\<close>

text \<open>
  A configuration with one allowed origin and the default limits; a request from that
  origin with a given body; what a run of either handler gets from outside; states with
  given caches; a valid body, a model output, and the body and client payload of a
  request for an upload token.
\<close>

definition ex_cfg :: config where
  "ex_cfg = \<lparr>allowedOrigins = [cu ''https://shop.example''], FALLBACK_LINE = cu ''Sorry'',
     MAX_FILES = 12, MAX_FILE_MB = 12, MAX_TOTAL_MB = 60,
     is_url = (\<lambda>u. True), to_number = (\<lambda>v. None)\<rparr>"

definition ex_req :: "ustring \<Rightarrow> request" where
  "ex_req b = \<lparr>req_method = cu ''POST'', req_origin = Some (cu ''https://shop.example''),
     req_forwarded_for = Some (cu ''10.0.0.1''), req_remote_address = None,
     req_user_agent = None, req_body = b\<rparr>"

definition ex_env :: "int \<Rightarrow> ai_outcome \<Rightarrow> bool \<Rightarrow> est_env" where
  "ex_env t ai ok = \<lparr>env_now = t, env_ai = ai, env_put_ok = ok, env_id = cu ''q1'',
     env_iso = cu ''2025-01-01'', env_ym = cu ''2025-01'', env_ai_ms = 1\<rparr>"

definition ex_state :: "(ustring, int list) lru \<Rightarrow> est_state" where
  "ex_state c = \<lparr>rateCache = c, blobs = [], est_log = []\<rparr>"

text \<open>
  Other callers, as many as wanted: the same request with another forwarded address,
  the letter c written once more for each. A crowd is one request of each of the first
  \<open>n\<close> of them, all at one instant.
\<close>

definition ex_other :: "nat \<Rightarrow> request" where
  "ex_other i = (ex_req [])\<lparr>req_forwarded_for := Some (replicate (Suc i) 0x63)\<rparr>"

definition ex_crowd :: "int \<Rightarrow> nat \<Rightarrow> (est_env \<times> request) list" where
  "ex_crowd t n = map (\<lambda>i. (ex_env t AiThrows True, ex_other i)) [0..<n]"

text \<open>Requests of the one caller with an empty body at the given instants.\<close>

definition ex_burst :: "int list \<Rightarrow> (est_env \<times> request) list" where
  "ex_burst ts = map (\<lambda>t. (ex_env t AiThrows True, ex_req [])) ts"

definition ex_body :: ustring where
  \<open>ex_body = cu ''{"zip":"06268","description":"sofa","image_urls":[]}''\<close>

definition ex_model_text :: ustring where
  \<open>ex_model_text = cu ''Outside our area\<newline>```json{"serviceable":false}```''\<close>

definition ex_token_body :: ustring where
  \<open>ex_token_body =
     cu ''{"type":"blob.generate-client-token","payload":{"pathname":"a.jpg","clientPayload":"{'' @
     [0x5C] @ cu ''"batchId'' @ [0x5C] @ cu ''":'' @ [0x5C] @ cu ''"b'' @ [0x5C] @ cu ''"}"}}''\<close>

definition ex_sign_env :: "int \<Rightarrow> sign_env" where
  "ex_sign_env t = \<lparr>senv_now = t, senv_ym = cu ''2025-01'', senv_now_digits = cu ''0'',
     senv_token = Some (cu ''tok''), senv_sig_ok = True\<rparr>"

definition ex_sign_state :: "(ustring, int list) lru \<Rightarrow> batch_cache \<Rightarrow> log_entry list \<Rightarrow> sign_state" where
  "ex_sign_state rc bc lg = \<lparr>sign_rateCache = rc, batchCounts = bc, sign_log = lg\<rparr>"

definition ex_client_payload :: ustring where
  \<open>ex_client_payload = cu ''{"batchId":"b"}''\<close>

section \<open>The first fence and the regular expression\<close>

lemma match_ci_eq:
  "match_ci p s =
     (if length p \<le> length s \<and> map canon (take (length p) s) = map canon p
      then Some (drop (length p) s) else None)"
  by (induction p s rule: match_ci.induct) auto

lemma length_fence_open: "length (cu ''```json'') = 7"
  by (simp add: cu_def)

lemma length_fence_close: "length (cu ''```'') = 3"
  by (simp add: cu_def)

lemma json_label_length: "json_label s \<Longrightarrow> length s = 7"
  unfolding json_label_def using length_fence_open by (metis length_map)

lemma match_ci_label:
  assumes "json_label opn"
  shows "match_ci (cu ''```json'') (opn @ rest) = Some rest"
proof -
  have "length opn = 7" using assms by (rule json_label_length)
  moreover have "map canon opn = map canon (cu ''```json'')"
    using assms by (simp add: json_label_def)
  ultimately show ?thesis
    by (simp add: match_ci_eq length_fence_open)
qed

lemma match_ci_no_label:
  assumes "\<not> json_label (take 7 s)"
  shows "match_ci (cu ''```json'') s = None"
  using assms by (simp add: match_ci_eq length_fence_open json_label_def)

lemma lazy_until_fence_first:
  assumes "\<forall>k<length inner. take 3 (drop k (inner @ cu ''```'')) \<noteq> cu ''```''"
  shows "lazy_until_fence (inner @ cu ''```'' @ post) = Some inner"
  using assms
proof (induction inner)
  case Nil
  show ?case by (simp add: cu_def starts_with_def)
next
  case (Cons a as)
  have "take 3 (drop 0 ((a # as) @ cu ''```'')) \<noteq> cu ''```''"
    using Cons.prems by (metis length_greater_0_conv list.discI)
  then have no: "\<not> starts_with (cu ''```'') (a # as @ cu ''```'' @ post)"
    by (simp add: starts_with_def length_fence_close)
  have "\<forall>k<length as. take 3 (drop k (as @ cu ''```'')) \<noteq> cu ''```''"
  proof (intro allI impI)
    fix k assume "k < length as"
    then have "Suc k < length (a # as)" by simp
    then have "take 3 (drop (Suc k) ((a # as) @ cu ''```'')) \<noteq> cu ''```''"
      using Cons.prems by blast
    then show "take 3 (drop k (as @ cu ''```'')) \<noteq> cu ''```''" by simp
  qed
  then have "lazy_until_fence (as @ cu ''```'' @ post) = Some as"
    by (rule Cons.IH)
  with no show ?case by simp
qed

lemma fence_exec_first:
  assumes "json_label opn"
    and "\<forall>k<length pre. \<not> json_label (take 7 (drop k (pre @ opn @ rest)))"
    and "lazy_until_fence rest = Some inner"
  shows "fence_exec (pre @ opn @ rest) = Some inner"
  using assms(2)
proof (induction pre)
  case Nil
  from assms(1) have "length opn = 7" by (rule json_label_length)
  then obtain c cs where opn: "opn = c # cs" by (cases opn) auto
  have "match_ci (cu ''```json'') ((c # cs) @ rest) = Some rest"
    using match_ci_label [OF assms(1)] opn by simp
  then show ?case using assms(3) opn by simp
next
  case (Cons a as)
  have "\<not> json_label (take 7 (drop 0 ((a # as) @ opn @ rest)))"
    using Cons.prems by (metis length_greater_0_conv list.discI)
  then have m: "match_ci (cu ''```json'') (a # as @ opn @ rest) = None"
    using match_ci_no_label by simp
  have "\<forall>k<length as. \<not> json_label (take 7 (drop k (as @ opn @ rest)))"
  proof (intro allI impI)
    fix k assume "k < length as"
    then have "Suc k < length (a # as)" by simp
    then have "\<not> json_label (take 7 (drop (Suc k) ((a # as) @ opn @ rest)))"
      using Cons.prems by blast
    then show "\<not> json_label (take 7 (drop k (as @ opn @ rest)))" by simp
  qed
  then have "fence_exec (as @ opn @ rest) = Some inner" by (rule Cons.IH)
  with m show ?case by simp
qed

lemma first_json_fence_exec:
  assumes "first_json_fence txt inner"
  shows "fence_exec txt = Some inner"
proof -
  from assms obtain pre opn post where
    decomp: "txt = pre @ opn @ inner @ cu ''```'' @ post" and
    lab: "json_label opn" and
    early: "\<forall>k<length pre. \<not> json_label (take 7 (drop k txt))" and
    cls: "\<forall>k<length inner. take 3 (drop k (inner @ cu ''```'')) \<noteq> cu ''```''"
    unfolding first_json_fence_def by blast
  have "lazy_until_fence (inner @ cu ''```'' @ post) = Some inner"
    using cls by (rule lazy_until_fence_first)
  with lab early show ?thesis unfolding decomp by (intro fence_exec_first) auto
qed

lemma lazy_until_fence_Some:
  assumes "lazy_until_fence s = Some inner"
  shows "\<exists>post. s = inner @ cu ''```'' @ post \<and>
           (\<forall>k<length inner. take 3 (drop k (inner @ cu ''```'')) \<noteq> cu ''```'')"
  using assms
proof (induction s arbitrary: inner)
  case Nil
  then show ?case by simp
next
  case (Cons c cs)
  show ?case
  proof (cases "starts_with (cu ''```'') (c # cs)")
    case True
    then have "inner = []" using Cons.prems by simp
    moreover have "c # cs = cu ''```'' @ drop 3 (c # cs)"
      using True by (metis append_take_drop_id length_fence_close starts_with_def)
    ultimately show ?thesis by auto
  next
    case False
    then obtain inner' where l: "lazy_until_fence cs = Some inner'" and i: "inner = c # inner'"
      using Cons.prems by auto
    from Cons.IH [OF l] obtain post where
      d: "cs = inner' @ cu ''```'' @ post" and
      n: "\<forall>k<length inner'. take 3 (drop k (inner' @ cu ''```'')) \<noteq> cu ''```''"
      by blast
    have z: "take 3 ((c # inner') @ cu ''```'') \<noteq> cu ''```''"
    proof -
      have "take 3 ((c # inner') @ cu ''```'') = take 3 (c # cs)"
        unfolding d by (simp add: length_fence_close)
      with False show ?thesis by (simp add: starts_with_def length_fence_close)
    qed
    have "\<forall>k<length (c # inner'). take 3 (drop k ((c # inner') @ cu ''```'')) \<noteq> cu ''```''"
    proof (intro allI impI)
      fix k assume k: "k < length (c # inner')"
      show "take 3 (drop k ((c # inner') @ cu ''```'')) \<noteq> cu ''```''"
      proof (cases k)
        case 0
        with z show ?thesis by simp
      next
        case (Suc j)
        with k have "j < length inner'" by simp
        with n Suc show ?thesis by simp
      qed
    qed
    with d i show ?thesis by auto
  qed
qed

lemma lazy_until_fence_None_tl:
  "lazy_until_fence (c # cs) = None \<Longrightarrow> lazy_until_fence cs = None"
  by (auto split: if_splits)

lemma lazy_until_fence_None_drop:
  "lazy_until_fence s = None \<Longrightarrow> lazy_until_fence (drop k s) = None"
proof (induction k arbitrary: s)
  case 0
  then show ?case by simp
next
  case (Suc k)
  show ?case
  proof (cases s)
    case Nil
    then show ?thesis by simp
  next
    case (Cons c cs)
    with Suc.prems have "lazy_until_fence cs = None" using lazy_until_fence_None_tl by simp
    then show ?thesis using Suc.IH Cons by simp
  qed
qed

lemma fence_exec_needs_close:
  "lazy_until_fence s = None \<Longrightarrow> fence_exec s = None"
proof (induction s)
  case Nil
  then show ?case by simp
next
  case (Cons c cs)
  have tl: "lazy_until_fence cs = None" using Cons.prems by (rule lazy_until_fence_None_tl)
  have "\<And>rest. match_ci (cu ''```json'') (c # cs) = Some rest \<Longrightarrow> lazy_until_fence rest = None"
  proof -
    fix rest assume "match_ci (cu ''```json'') (c # cs) = Some rest"
    then have "rest = drop 7 (c # cs)"
      by (auto simp: match_ci_eq length_fence_open split: if_splits)
    then show "lazy_until_fence rest = None"
      using lazy_until_fence_None_drop [OF Cons.prems, of 7] by simp
  qed
  then show ?case using Cons.IH [OF tl] by (auto split: option.splits)
qed

lemma fence_pattern: "map canon (cu ''```json'') = [96, 96, 96, 74, 83, 79, 78]"
  by (simp add: cu_def canon_def)

lemma no_fence_inside_label:
  assumes "json_label opn" and "lazy_until_fence rest = None"
  shows "fence_exec (tl (opn @ rest)) = None"
proof -
  have seven: "length opn = 7" using assms(1) by (rule json_label_length)
  then obtain a b c d e f g where opn: "opn = [a, b, c, d, e, f, g]"
    by (auto simp: length_Suc_conv eval_nat_numeral)
  have cs: "canon a = 96" "canon b = 96" "canon c = 96" "canon d = 74" "canon e = 83"
    "canon f = 79" "canon g = 78"
    using assms(1) unfolding json_label_def fence_pattern opn by simp_all
  have pat: "cu ''```json'' = [96, 96, 96, 106, 115, 111, 110]" by (simp add: cu_def)
  have c96: "canon 96 = 96" by (simp add: canon_def)
  have "fence_exec rest = None" using assms(2) by (rule fence_exec_needs_close)
  then show ?thesis
    unfolding opn by (simp add: pat cs c96)
qed

lemma fence_exec_Some:
  assumes "fence_exec s = Some inner"
  shows "first_json_fence s inner"
  using assms
proof (induction s)
  case Nil
  then show ?case by simp
next
  case (Cons c cs)
  show ?case
  proof (cases "json_label (take 7 (c # cs)) \<and> lazy_until_fence (drop 7 (c # cs)) \<noteq> None")
    case True
    then have lab: "json_label (take 7 (c # cs))" by simp
    then have len: "7 \<le> length (c # cs)" using json_label_length by fastforce
    have m: "match_ci (cu ''```json'') (c # cs) = Some (drop 7 (c # cs))"
      using lab len by (simp add: match_ci_eq length_fence_open json_label_def)
    from True obtain cap where cap: "lazy_until_fence (drop 7 (c # cs)) = Some cap" by auto
    with m Cons.prems have "cap = inner" by simp
    with cap obtain post where
      d: "drop 7 (c # cs) = inner @ cu ''```'' @ post" and
      n: "\<forall>k<length inner. take 3 (drop k (inner @ cu ''```'')) \<noteq> cu ''```''"
      using lazy_until_fence_Some by blast
    have "c # cs = [] @ take 7 (c # cs) @ inner @ cu ''```'' @ post"
      using d by (metis append_Nil append_take_drop_id)
    then show ?thesis
      unfolding first_json_fence_def using lab n
      by (metis length_0_conv length_greater_0_conv less_nat_zero_code list.size(3))
  next
    case False
    have rec: "fence_exec cs = Some inner"
    proof (cases "match_ci (cu ''```json'') (c # cs)")
      case None
      with Cons.prems show ?thesis by simp
    next
      case (Some rest)
      then have "rest = drop 7 (c # cs)" "json_label (take 7 (c # cs))"
        by (auto simp: match_ci_eq length_fence_open json_label_def split: if_splits)
      with False have "lazy_until_fence rest = None" by simp
      with Some Cons.prems show ?thesis by simp
    qed
    have nolab: "\<not> json_label (take 7 (c # cs))"
    proof
      assume lab: "json_label (take 7 (c # cs))"
      with False have none: "lazy_until_fence (drop 7 (c # cs)) = None" by simp
      have "fence_exec (tl (take 7 (c # cs) @ drop 7 (c # cs))) = None"
        using lab none by (rule no_fence_inside_label)
      then have "fence_exec cs = None" by simp
      with rec show False by simp
    qed
    from Cons.IH [OF rec] obtain pre opn post where
      d: "cs = pre @ opn @ inner @ cu ''```'' @ post" and
      lab: "json_label opn" and
      early: "\<forall>k<length pre. \<not> json_label (take 7 (drop k cs))" and
      n: "\<forall>k<length inner. take 3 (drop k (inner @ cu ''```'')) \<noteq> cu ''```''"
      unfolding first_json_fence_def by blast
    have e2: "\<forall>k<length (c # pre). \<not> json_label (take 7 (drop k (c # cs)))"
    proof (intro allI impI)
      fix k assume k: "k < length (c # pre)"
      show "\<not> json_label (take 7 (drop k (c # cs)))"
      proof (cases k)
        case 0
        with nolab show ?thesis by simp
      next
        case (Suc j)
        with k have "j < length pre" by simp
        with early Suc show ?thesis by simp
      qed
    qed
    have "c # cs = (c # pre) @ opn @ inner @ cu ''```'' @ post" using d by simp
    with lab e2 n show ?thesis unfolding first_json_fence_def by blast
  qed
qed

text \<open>The notion of the first fence is exactly what the regular expression captures.\<close>

lemma first_json_fence_iff: "first_json_fence txt inner \<longleftrightarrow> fence_exec txt = Some inner"
  using first_json_fence_exec fence_exec_Some by blast

lemmas json_eval = JSON_parse_def tokenize_def cu_def lex_idle_def lex_end_def is_digit_def
  num0_def num_final_def num_value_def is_exp_mark_def unescape_def hex_val_def

lemma JSON_parse_empty: "JSON_parse [] = None"
  by (simp add: JSON_parse_def tokenize_def lex_end_def)

lemma repair_empty: "repair_trailing_commas [] = []"
  by (simp add: repair_trailing_commas_def)

lemma ex_fence_valid: \<open>first_json_fence (cu ''x ```JSON{"a":1}``` {"b":2}'') (cu ''{"a":1}'')\<close>
  unfolding first_json_fence_def
  apply (rule exI [of _ "cu ''x ''"])
  apply (rule exI [of _ "cu ''```JSON''"])
  apply (rule exI [of _ \<open>cu '' {"b":2}''\<close>])
  apply (simp add: cu_def json_label_def canon_def All_less_Suc)
  done

lemma ex_fence_invalid: \<open>first_json_fence (cu ''```json{a}``` {"b":2}'') (cu ''{a}'')\<close>
  unfolding first_json_fence_def
  apply (rule exI [of _ "[]"])
  apply (rule exI [of _ "cu ''```json''"])
  apply (rule exI [of _ \<open>cu '' {"b":2}''\<close>])
  apply (simp add: cu_def json_label_def canon_def All_less_Suc)
  done

section \<open>The loose JSON extractor: properties\<close>

text \<open>
  C1. When the interior of the first fence labelled \<^verbatim>\<open>json\<close> (in any letter case)
  parses as JSON to a value, \<^verbatim>\<open>extractJsonLoose\<close> returns exactly that value,
  whatever stands before the fence and after it.
\<close>

theorem extractJsonLoose_fenced_valid:
  assumes "first_json_fence txt inner" and "JSON_parse inner = Some v"
  shows "extractJsonLoose txt = v"
proof -
  have "fence_exec txt = Some inner" using assms(1) by (rule first_json_fence_exec)
  moreover have "inner \<noteq> []" using assms(2) JSON_parse_empty by auto
  ultimately show ?thesis using assms(2) by (simp add: extractJsonLoose_def)
qed

theorem extractJsonLoose_fenced_valid_witness:
  \<open>first_json_fence (cu ''x ```JSON{"a":1}``` {"b":2}'') (cu ''{"a":1}'') \<and>
   JSON_parse (cu ''{"a":1}'') = Some (JObject [(cu ''a'', JNumber 1)]) \<and>
   extractJsonLoose (cu ''x ```JSON{"a":1}``` {"b":2}'') = JObject [(cu ''a'', JNumber 1)]\<close>
proof -
  have p: \<open>JSON_parse (cu ''{"a":1}'') = Some (JObject [(cu ''a'', JNumber 1)])\<close>
    by (simp add: json_eval)
  show ?thesis
    using ex_fence_valid p extractJsonLoose_fenced_valid [OF ex_fence_valid p] by simp
qed

text \<open>
  C2. When the text has a fence labelled \<^verbatim>\<open>json\<close>, the result is a function of the
  interior of the first such fence alone: the strict parse, else the parse of the
  repaired interior, else \<^verbatim>\<open>null\<close>. The span between the first and the last brace
  of the text is not consulted.
\<close>

theorem extractJsonLoose_fence_only:
  assumes "first_json_fence txt inner"
  shows "extractJsonLoose txt =
     (case JSON_parse inner of
        Some v \<Rightarrow> v
      | None \<Rightarrow>
          (case JSON_parse (repair_trailing_commas inner) of Some v \<Rightarrow> v | None \<Rightarrow> JNull))"
proof -
  have "fence_exec txt = Some inner" using assms(1) by (rule first_json_fence_exec)
  then show ?thesis
    by (cases "inner = []") (simp_all add: extractJsonLoose_def JSON_parse_empty repair_empty)
qed

theorem extractJsonLoose_fence_only_witness:
  \<open>first_json_fence (cu ''```json{a}``` {"b":2}'') (cu ''{a}'') \<and>
   brace_span (cu ''```json{a}``` {"b":2}'') = Some (cu ''{a}``` {"b":2}'') \<and>
   extractJsonLoose (cu ''```json{a}``` {"b":2}'') = JNull\<close>
proof -
  have p: \<open>JSON_parse (cu ''{a}'') = None\<close>
    by (simp add: json_eval)
  have r: \<open>JSON_parse (repair_trailing_commas (cu ''{a}'')) = None\<close>
    by (simp add: json_eval repair_trailing_commas_def starts_with_def is_space_def)
  have b: \<open>brace_span (cu ''```json{a}``` {"b":2}'') = Some (cu ''{a}``` {"b":2}'')\<close>
    by (simp add: brace_span_def slice_def cu_def)
  show ?thesis
    using ex_fence_invalid b extractJsonLoose_fence_only [OF ex_fence_invalid] by (simp add: p r)
qed

lemma tc_strict: \<open>JSON_parse (cu ''{"a":1, "arr":[1,2,],}'') = None\<close>
  by (simp add: json_eval)

lemma tc_repair:
  \<open>repair_trailing_commas (cu ''{"a":1, "arr":[1,2,],}'') = cu ''{"a":1, "arr":[1,2]}''\<close>
  by (simp add: repair_trailing_commas_def starts_with_def is_space_def cu_def)

lemma tc_retry:
  \<open>JSON_parse (cu ''{"a":1, "arr":[1,2]}'') =
     Some (JObject [(cu ''a'', JNumber 1), (cu ''arr'', JArray [JNumber 1, JNumber 2])])\<close>
  by (simp add: json_eval)

lemma tc_fence: \<open>fence_exec (cu ''```json{"a":1, "arr":[1,2,],}```'') = Some (cu ''{"a":1, "arr":[1,2,],}'')\<close>
  by (simp add: cu_def canon_def starts_with_def)

lemma tc_fence_nl:
  \<open>fence_exec (cu ''```json\<newline>{"a":1, "arr":[1,2,],}\<newline>```'') =
     Some (cu ''\<newline>{"a":1, "arr":[1,2,],}\<newline>'')\<close>
  by (simp add: cu_def canon_def starts_with_def)

lemma tc_strict_nl: \<open>JSON_parse (cu ''\<newline>{"a":1, "arr":[1,2,],}\<newline>'') = None\<close>
  by (simp add: json_eval)

lemma tc_repair_nl:
  \<open>repair_trailing_commas (cu ''\<newline>{"a":1, "arr":[1,2,],}\<newline>'') = cu ''\<newline>{"a":1, "arr":[1,2]}\<newline>''\<close>
  by (simp add: repair_trailing_commas_def starts_with_def is_space_def cu_def)

lemma tc_retry_nl:
  \<open>JSON_parse (cu ''\<newline>{"a":1, "arr":[1,2]}\<newline>'') =
     Some (JObject [(cu ''a'', JNumber 1), (cu ''arr'', JArray [JNumber 1, JNumber 2])])\<close>
  by (simp add: json_eval)

lemma cu_nonempty: \<open>cu ''{"a":1, "arr":[1,2,],}'' \<noteq> []\<close> \<open>cu ''\<newline>{"a":1, "arr":[1,2,],}\<newline>'' \<noteq> []\<close>
  by (simp_all add: cu_def)

text \<open>
  C3. For the candidate \<^verbatim>\<open>{"a":1, "arr":[1,2,],}\<close> inside a fence labelled
  \<^verbatim>\<open>json\<close>: the strict parse fails, the repair removes the comma before the closing
  bracket and the one before the closing brace, the second parse succeeds, and the
  result is the object with \<open>a = 1\<close> and \<open>arr = [1, 2]\<close>.
\<close>

theorem extractJsonLoose_trailing_commas:
  \<open>JSON_parse (cu ''{"a":1, "arr":[1,2,],}'') = None \<and>
   repair_trailing_commas (cu ''{"a":1, "arr":[1,2,],}'') = cu ''{"a":1, "arr":[1,2]}'' \<and>
   JSON_parse (cu ''{"a":1, "arr":[1,2]}'') =
     Some (JObject [(cu ''a'', JNumber 1), (cu ''arr'', JArray [JNumber 1, JNumber 2])]) \<and>
   extractJsonLoose (cu ''```json{"a":1, "arr":[1,2,],}```'') =
     JObject [(cu ''a'', JNumber 1), (cu ''arr'', JArray [JNumber 1, JNumber 2])] \<and>
   extractJsonLoose (cu ''```json\<newline>{"a":1, "arr":[1,2,],}\<newline>```'') =
     JObject [(cu ''a'', JNumber 1), (cu ''arr'', JArray [JNumber 1, JNumber 2])]\<close>
proof -
  have a: \<open>extractJsonLoose (cu ''```json{"a":1, "arr":[1,2,],}```'') =
     JObject [(cu ''a'', JNumber 1), (cu ''arr'', JArray [JNumber 1, JNumber 2])]\<close>
    unfolding extractJsonLoose_def tc_fence by (simp add: cu_nonempty tc_strict tc_repair tc_retry)
  have b: \<open>extractJsonLoose (cu ''```json\<newline>{"a":1, "arr":[1,2,],}\<newline>```'') =
     JObject [(cu ''a'', JNumber 1), (cu ''arr'', JArray [JNumber 1, JNumber 2])]\<close>
    unfolding extractJsonLoose_def tc_fence_nl
    by (simp add: cu_nonempty tc_strict_nl tc_repair_nl tc_retry_nl)
  from tc_strict tc_repair tc_retry a b show ?thesis by blast
qed

section \<open>The handlers: auxiliary facts\<close>

lemma regex_test_ci_contains: "regex_test_ci p s \<longleftrightarrow> contains_ci p s"
proof (induction s)
  case Nil
  show ?case by (auto simp: contains_ci_def match_ci_eq)
next
  case (Cons c cs)
  show ?case
  proof
    assume "regex_test_ci p (c # cs)"
    then consider "match_ci p (c # cs) \<noteq> None" | "regex_test_ci p cs" by auto
    then show "contains_ci p (c # cs)"
    proof cases
      case 1
      then have "length p \<le> length (c # cs)" "map canon (take (length p) (c # cs)) = map canon p"
        by (auto simp: match_ci_eq split: if_splits)
      moreover have "c # cs = [] @ take (length p) (c # cs) @ drop (length p) (c # cs)" by simp
      ultimately show ?thesis unfolding contains_ci_def by blast
    next
      case 2
      then obtain a m b where "cs = a @ m @ b" "map canon m = map canon p"
        using Cons.IH by (auto simp: contains_ci_def)
      then have "c # cs = (c # a) @ m @ b" by simp
      then show ?thesis unfolding contains_ci_def using \<open>map canon m = map canon p\<close> by blast
    qed
  next
    assume "contains_ci p (c # cs)"
    then obtain a m b where d: "c # cs = a @ m @ b" and m: "map canon m = map canon p"
      by (auto simp: contains_ci_def)
    have len: "length m = length p" using m by (metis length_map)
    show "regex_test_ci p (c # cs)"
    proof (cases a)
      case Nil
      then have "take (length p) (c # cs) = m" using d len by simp
      moreover have "length p \<le> length (c # cs)" using d len Nil by (metis append_Nil le_add1 length_append)
      ultimately have "match_ci p (c # cs) \<noteq> None" using m by (simp add: match_ci_eq)
      then show ?thesis by simp
    next
      case (Cons x xs)
      then have "cs = xs @ m @ b" using d by simp
      then have "contains_ci p cs" using m unfolding contains_ci_def by blast
      then show ?thesis using Cons.IH by simp
    qed
  qed
qed

lemma cu_POST_not_OPTIONS: "cu ''POST'' \<noteq> cu ''OPTIONS''"
  by (simp add: cu_def)

lemma rateLimit_fst:
  "fst (rateLimit now ip c) \<longleftrightarrow>
     length (filter (\<lambda>t. now - t < RATE_WINDOW_MS) (recorded ip c)) < RATE_MAX"
  by (auto simp: rateLimit_def lru_get_def recorded_def Let_def split: option.splits)

lemma lru_set_lookup: "map_of (lru_set CACHE_MAX k v c) k = Some v"
  by (simp add: lru_set_def CACHE_MAX_def)

lemma rateLimit_recorded:
  assumes "fst (rateLimit now ip c)"
  shows "recorded ip (snd (rateLimit now ip c)) =
           filter (\<lambda>t. now - t < RATE_WINDOW_MS) (recorded ip c) @ [now]"
  using assms
  by (auto simp: rateLimit_def lru_get_def recorded_def Let_def lru_set_lookup
           split: option.splits if_splits)

lemma status_failed: "status (fst (failed cfg cors s)) = 200"
  by (simp add: failed_def fallback_response_def)

lemma status_estimate: "status (fst (estimate cfg env cors ip parsed s)) = 200"
  by (simp add: estimate_def Let_def status_failed split: ai_outcome.splits)

lemma handler_after_origin:
  assumes "req_method req = cu ''POST''" and "origin_listed cfg (req_origin req)"
  shows "handler cfg env req s =
     (case rateLimit (env_now env) (getIP req) (rateCache s) of
        (admitted, cache') \<Rightarrow>
          if \<not> admitted
          then (\<lparr>status = 429, allow_origin = setCors cfg (req_origin req), body = BRateLimited apology\<rparr>,
                s\<lparr>rateCache := cache'\<rparr>)
          else (case readJson (req_body req) of
                  None \<Rightarrow> failed cfg (setCors cfg (req_origin req)) (s\<lparr>rateCache := cache'\<rparr>)
                | Some b \<Rightarrow>
                    (case BodySchema_safeParse cfg b of
                       Inl issues \<Rightarrow>
                         (\<lparr>status = 400, allow_origin = setCors cfg (req_origin req),
                           body = BInvalid apology issues\<rparr>, s\<lparr>rateCache := cache'\<rparr>)
                     | Inr parsed \<Rightarrow>
                         estimate cfg env (setCors cfg (req_origin req)) (getIP req) parsed
                           (s\<lparr>rateCache := cache'\<rparr>))))"
  using assms cu_POST_not_OPTIONS by (simp add: handler_def Let_def)

lemma ex_req_simps:
  "req_method (ex_req b) = cu ''POST''"
  "req_origin (ex_req b) = Some (cu ''https://shop.example'')"
  "req_body (ex_req b) = b"
  "req_user_agent (ex_req b) = None"
  by (simp_all add: ex_req_def)

lemma ex_getIP: "getIP (ex_req b) = cu ''10.0.0.1''"
  by (simp add: getIP_def ex_req_def cu_def split_first_def trim_def is_space_def)

lemma ex_listed: "origin_listed ex_cfg (Some (cu ''https://shop.example''))"
  by (simp add: origin_listed_def ex_cfg_def cu_def)

lemma readJson_empty_body: "readJson [] = Some (JObject [])"
  by (simp add: readJson_def json_eval)

lemma ex_body_json:
  "readJson ex_body = Some (JObject [(cu ''zip'', JString (cu ''06268'')),
     (cu ''description'', JString (cu ''sofa'')), (cu ''image_urls'', JArray [])])"
  by (simp add: readJson_def ex_body_def json_eval)

lemma ex_body_parsed:
  "BodySchema_safeParse ex_cfg (JObject [(cu ''zip'', JString (cu ''06268'')),
     (cu ''description'', JString (cu ''sofa'')), (cu ''image_urls'', JArray [])])
   = Inr \<lparr>pb_zip = cu ''06268'', pb_description = cu ''sofa'', pb_image_urls = []\<rparr>"
  by (simp add: BodySchema_safeParse_def ex_cfg_def cu_def trim_def is_space_def)

lemma ex_rate_first: "rateLimit t (cu ''10.0.0.1'') [] = (True, [(cu ''10.0.0.1'', [t])])"
  by (simp add: rateLimit_def lru_get_def lru_set_def RATE_MAX_def CACHE_MAX_def)

lemma ex_handler_estimate:
  "handler ex_cfg (ex_env t ai ok) (ex_req ex_body) (ex_state []) =
   estimate ex_cfg (ex_env t ai ok) (Some (cu ''https://shop.example'')) (cu ''10.0.0.1'')
     \<lparr>pb_zip = cu ''06268'', pb_description = cu ''sofa'', pb_image_urls = []\<rparr>
     (ex_state [(cu ''10.0.0.1'', [t])])"
proof -
  have p: "req_method (ex_req ex_body) = cu ''POST''" by (simp add: ex_req_simps)
  have l: "origin_listed ex_cfg (req_origin (ex_req ex_body))" by (simp add: ex_req_simps ex_listed)
  show ?thesis
    by (simp add: handler_after_origin [OF p l] ex_getIP ex_req_simps ex_body_json ex_body_parsed
          ex_rate_first ex_state_def ex_env_def setCors_def ex_listed)
qed

lemma ex_model_trim: "model_text (Some ex_model_text) = ex_model_text"
  by (simp add: model_text_def ex_model_text_def trim_def cu_def is_space_def)

lemma ex_model_line: "customer_line_of ex_cfg ex_model_text = cu ''Outside our area''"
  by (simp add: customer_line_of_def ex_model_text_def split_first_def trim_def cu_def is_space_def)

lemma ex_model_fence: \<open>fence_exec ex_model_text = Some (cu ''{"serviceable":false}'')\<close>
  by (simp add: ex_model_text_def cu_def canon_def starts_with_def)

lemma ex_model_json:
  \<open>JSON_parse (cu ''{"serviceable":false}'') = Some (JObject [(cu ''serviceable'', JBool False)])\<close>
  by (simp add: json_eval)

lemma ex_model_extract:
  "extractJsonLoose ex_model_text = JObject [(cu ''serviceable'', JBool False)]"
proof -
  have \<open>cu ''{"serviceable":false}'' \<noteq> []\<close> by (simp add: cu_def)
  then show ?thesis by (simp add: extractJsonLoose_def ex_model_fence ex_model_json)
qed

lemma trim_hd:
  assumes "trim t \<noteq> []"
  shows "\<not> is_space (hd (trim t))"
proof -
  define u where "u = dropWhile is_space t"
  define v where "v = dropWhile is_space (rev u)"
  have tv: "trim t = rev v" by (simp add: trim_def u_def v_def)
  with assms have vne: "v \<noteq> []" by simp
  then have "rev u \<noteq> []" unfolding v_def by auto
  then have une: "u \<noteq> []" by simp
  then have nsp: "\<not> is_space (hd u)" unfolding u_def by (rule hd_dropWhile)
  have "rev u = takeWhile is_space (rev u) @ v" by (simp add: v_def)
  then have "u = rev v @ rev (takeWhile is_space (rev u))" by (metis rev_append rev_rev_ident)
  with vne have "hd u = hd (rev v)" by (metis hd_append2 rev_is_Nil_conv)
  with nsp tv show ?thesis by simp
qed

lemma first_line_of_trimmed:
  assumes "trim t \<noteq> []"
  shows "split_first 0x0A (trim t) \<noteq> []"
proof -
  obtain c cs where tc: "trim t = c # cs" using assms by (cases "trim t") auto
  then have "\<not> is_space c" using trim_hd [OF assms] by simp
  then have "c \<noteq> 0x0A" by (auto simp: is_space_def)
  then show ?thesis by (simp add: tc split_first_def)
qed

lemma serviceable_of_eq:
  "serviceable_of j line =
     (case get_prop j (cu ''serviceable'') of
        Some (JBool v) \<Rightarrow> v
      | _ \<Rightarrow> \<not> contains_ci (cu ''outside'') line)"
  by (cases j) (simp_all add: serviceable_of_def regex_test_ci_contains split: option.splits json.splits)

lemma trim_blank:
  assumes "\<forall>c \<in> set s. is_space c"
  shows "trim s = []"
proof -
  have d: "dropWhile is_space s = []" using assms by (induction s) auto
  show ?thesis unfolding trim_def d by simp
qed

lemma split_on_no_sep: "sep \<notin> set s \<Longrightarrow> split_on sep s = [s]"
  by (induction s) auto

lemma parse_origins_blank:
  assumes "env = None \<or> (\<exists>s. env = Some s \<and> (\<forall>c \<in> set s. is_space c))"
  shows "parse_origins env = []"
proof (cases env)
  case None
  then show ?thesis by (simp add: parse_origins_def trim_def)
next
  case (Some s)
  with assms have blank: "\<forall>c \<in> set s. is_space c" by auto
  have "\<not> is_space 0x2C" by (simp add: is_space_def)
  with blank have "0x2C \<notin> set s" by auto
  then have "split_on 0x2C s = [s]" by (rule split_on_no_sep)
  then show ?thesis using Some trim_blank [OF blank] by (simp add: parse_origins_def)
qed

lemma s_status_sign_failed: "s_status (fst (sign_failed cors e s)) = 400"
  by (simp add: sign_failed_def)

lemma sign_handler_open:
  assumes "req_method req = cu ''POST''" and "allowedOrigins cfg = []"
  shows "s_status (fst (sign_handler cfg env req s)) \<noteq> 403"
  using assms cu_POST_not_OPTIONS
  by (simp add: sign_handler_def Let_def s_status_sign_failed
        split: prod.splits option.splits upload_event.splits sum.splits)

lemma batch_set_stored:
  "\<not> is_ref k \<Longrightarrow> stored_count k (batch_set now k v c) = Some v"
  by (simp add: batch_set_def ttl_set_def stored_count_def CACHE_MAX_def)

lemma count_batch_string:
  assumes "k \<noteq> []"
  shows "count_batch cfg now (JString k) counts =
     (let n = (case fst (batch_get now (JString k) counts) of None \<Rightarrow> 0 | Some n \<Rightarrow> n) + 1;
          c2 = batch_set now (JString k) n (snd (batch_get now (JString k) counts))
      in if n > MAX_FILES cfg then (Some (BatchExceedsFiles (MAX_FILES cfg)), c2) else (None, c2))"
  using assms by (simp add: count_batch_def Let_def split: prod.splits)

lemma ex_token_json:
  \<open>readJson ex_token_body =
     Some (JObject [(cu ''type'', JString (cu ''blob.generate-client-token'')),
       (cu ''payload'', JObject [(cu ''pathname'', JString (cu ''a.jpg'')),
          (cu ''clientPayload'', JString ex_client_payload)])])\<close>
  by (simp add: readJson_def ex_token_body_def ex_client_payload_def json_eval)

lemma ex_token_event:
  \<open>decode_event (JObject [(cu ''type'', JString (cu ''blob.generate-client-token'')),
       (cu ''payload'', JObject [(cu ''pathname'', JString (cu ''a.jpg'')),
          (cu ''clientPayload'', JString ex_client_payload)])]) =
     Some (GenerateClientToken (cu ''a.jpg'') (Some ex_client_payload))\<close>
  by (simp add: decode_event_def cu_def ex_client_payload_def)

lemma ex_token_meta:
  \<open>parse_meta (Some ex_client_payload) = JObject [(cu ''batchId'', JString (cu ''b''))]\<close>
  by (simp add: parse_meta_def ex_client_payload_def json_eval)

lemma ex_token_first:
  \<open>onBeforeGenerateToken ex_cfg (ex_sign_env t) req ip (cu ''a.jpg'') (Some ex_client_payload) [] =
     (Inr \<lparr>allowedContentTypes = [cu ''image/jpeg'', cu ''image/png'', cu ''image/webp''],
           addRandomSuffix = True, pathname = cu ''uploads/2025-01/a.jpg'', tp_ip = ip,
           tp_ua = (case req_user_agent req of None \<Rightarrow> [] | Some u \<Rightarrow> u),
           tp_batchId = JString (cu ''b'')\<rparr>,
      [(JString (cu ''b''), (1, t))])\<close>
  unfolding onBeforeGenerateToken_def ex_token_meta
  by (simp add: Let_def megabytes_def exceeds_def
        count_batch_def batch_get_def batch_set_def is_ref_def ttl_get_def ttl_set_def
        CACHE_MAX_def ex_sign_env_def ex_cfg_def cu_def)

lemma ex_token_next:
  assumes "\<not> t - t0 > RATE_WINDOW_MS"
  shows \<open>snd (onBeforeGenerateToken ex_cfg (ex_sign_env t) req ip (cu ''a.jpg'')
            (Some ex_client_payload) [(JString (cu ''b''), (n, t0))]) =
          [(JString (cu ''b''), (n + 1, t))]\<close>
  using assms
  unfolding onBeforeGenerateToken_def ex_token_meta
  by (simp add: Let_def megabytes_def exceeds_def
        count_batch_def batch_get_def batch_set_def is_ref_def ttl_get_def ttl_set_def
        CACHE_MAX_def ex_sign_env_def ex_cfg_def cu_def)

lemma ex_rate_next:
  assumes "length (filter (\<lambda>x. t - x < RATE_WINDOW_MS) ts) < RATE_MAX"
  shows "rateLimit t (cu ''10.0.0.1'') [(cu ''10.0.0.1'', ts)] =
           (True, [(cu ''10.0.0.1'', filter (\<lambda>x. t - x < RATE_WINDOW_MS) ts @ [t])])"
  using assms by (simp add: rateLimit_def lru_get_def lru_set_def CACHE_MAX_def)

lemma ex_sign_step:
  assumes "fst (rateLimit t (cu ''10.0.0.1'') rc)"
  shows \<open>batchCounts (snd (sign_handler ex_cfg (ex_sign_env t) (ex_req ex_token_body)
            (ex_sign_state rc bc lg))) =
          snd (onBeforeGenerateToken ex_cfg (ex_sign_env t) (ex_req ex_token_body) (cu ''10.0.0.1'')
                 (cu ''a.jpg'') (Some ex_client_payload) bc) \<and>
         sign_rateCache (snd (sign_handler ex_cfg (ex_sign_env t) (ex_req ex_token_body)
            (ex_sign_state rc bc lg))) = snd (rateLimit t (cu ''10.0.0.1'') rc)\<close>
proof -
  obtain rc' where rl: "rateLimit t (cu ''10.0.0.1'') rc = (True, rc')"
    using assms by (cases "rateLimit t (cu ''10.0.0.1'') rc") auto
  have l: "origin_listed ex_cfg (req_origin (ex_req ex_token_body))"
    by (simp add: ex_req_simps ex_listed)
  have n: "senv_now (ex_sign_env t) = t" by (simp add: ex_sign_env_def)
  show ?thesis
    using l cu_POST_not_OPTIONS
    by (simp add: sign_handler_def Let_def ex_req_simps ex_getIP n rl ex_token_json ex_token_event
          ex_sign_state_def sign_failed_def split: prod.splits sum.splits option.splits)
qed

text \<open>The rate cache along a sequence of requests.\<close>

lemma rateCache_failed: "rateCache (snd (failed cfg cors s)) = rateCache s"
  by (simp add: failed_def)

lemma rateCache_estimate: "rateCache (snd (estimate cfg env cors ip parsed s)) = rateCache s"
  by (simp add: estimate_def Let_def rateCache_failed split: ai_outcome.splits)

lemma handler_rateCache:
  "rateCache (snd (handler cfg env req s)) =
     (if req_method req = cu ''POST'' \<and> origin_listed cfg (req_origin req)
      then snd (rateLimit (env_now env) (getIP req) (rateCache s))
      else rateCache s)"
proof (cases "req_method req = cu ''POST'' \<and> origin_listed cfg (req_origin req)")
  case True
  obtain a c where rl: "rateLimit (env_now env) (getIP req) (rateCache s) = (a, c)"
    by (cases "rateLimit (env_now env) (getIP req) (rateCache s)") auto
  from True have p: "req_method req = cu ''POST''" and l: "origin_listed cfg (req_origin req)"
    by simp_all
  show ?thesis
    using True
    by (simp add: handler_after_origin [OF p l] rl rateCache_failed rateCache_estimate
          split: option.splits sum.splits)
next
  case False
  then show ?thesis by (auto simp: handler_def Let_def)
qed

lemma handler_was_admitted:
  "was_admitted (fst (handler cfg env req s)) \<longleftrightarrow>
     req_method req = cu ''POST'' \<and> origin_listed cfg (req_origin req) \<and>
     fst (rateLimit (env_now env) (getIP req) (rateCache s))"
proof (cases "req_method req = cu ''POST'' \<and> origin_listed cfg (req_origin req)")
  case True
  obtain a c where rl: "rateLimit (env_now env) (getIP req) (rateCache s) = (a, c)"
    by (cases "rateLimit (env_now env) (getIP req) (rateCache s)") auto
  from True have p: "req_method req = cu ''POST''" and l: "origin_listed cfg (req_origin req)"
    by simp_all
  show ?thesis
    using True
    by (simp add: handler_after_origin [OF p l] rl was_admitted_def status_failed status_estimate
          split: option.splits sum.splits)
next
  case False
  then show ?thesis by (auto simp: handler_def Let_def was_admitted_def)
qed

lemma map_of_filter_other: "k \<noteq> ip \<Longrightarrow> map_of (filter (\<lambda>e. fst e \<noteq> k) c) ip = map_of c ip"
  by (induction c) auto

lemma map_of_take_cases: "map_of (take n xs) k = None \<or> map_of (take n xs) k = map_of xs k"
proof (induction xs arbitrary: n)
  case Nil
  show ?case by simp
next
  case (Cons x xs)
  show ?case
  proof (cases n)
    case 0
    then show ?thesis by simp
  next
    case (Suc m)
    with Cons [of m] show ?thesis by auto
  qed
qed

lemma lru_set_other:
  assumes "k \<noteq> ip"
  shows "map_of (lru_set cap k v c) ip = None \<or> map_of (lru_set cap k v c) ip = map_of c ip"
  using assms map_of_take_cases [of cap "(k, v) # filter (\<lambda>e. fst e \<noteq> k) c" ip]
  by (simp add: lru_set_def map_of_filter_other)

lemma lru_get_other: "k \<noteq> ip \<Longrightarrow> map_of (snd (lru_get k c)) ip = map_of c ip"
  by (simp add: lru_get_def map_of_filter_other split: option.splits)

lemma rateLimit_other:
  assumes "k \<noteq> ip"
  shows "map_of (snd (rateLimit now k c)) ip = None \<or>
         map_of (snd (rateLimit now k c)) ip = map_of c ip"
proof -
  obtain hit c1 where g: "lru_get k c = (hit, c1)" by (cases "lru_get k c") auto
  then have c1: "map_of c1 ip = map_of c ip" using lru_get_other [OF assms, of c] by simp
  show ?thesis
    using lru_set_other [OF assms, of CACHE_MAX _ c1] c1
    by (auto simp: rateLimit_def g Let_def)
qed

lemma rateLimit_rejected_recorded:
  "\<not> fst (rateLimit now ip c) \<Longrightarrow> recorded ip (snd (rateLimit now ip c)) = recorded ip c"
  by (auto simp: rateLimit_def lru_get_def recorded_def Let_def split: option.splits if_splits)

lemma filter_window_later:
  "t \<le> now \<Longrightarrow>
   filter (\<lambda>x. t - x < RATE_WINDOW_MS \<and> now - x < RATE_WINDOW_MS) xs =
   filter (\<lambda>x. now - x < RATE_WINDOW_MS) xs"
  by (induction xs) auto

lemma recorded_other:
  assumes "getIP req \<noteq> ip"
  shows "map_of (rateCache (snd (handler cfg env req s))) ip = None \<or>
         map_of (rateCache (snd (handler cfg env req s))) ip = map_of (rateCache s) ip"
  using rateLimit_other [OF assms, of "env_now env" "rateCache s"]
  by (auto simp: handler_rateCache)

lemma step_count:
  assumes ret: "map_of (rateCache s) ip \<noteq> None \<longrightarrow>
                  map_of (rateCache (snd (handler cfg env req s))) ip \<noteq> None"
    and le: "env_now env \<le> now"
  shows "length (filter (\<lambda>t. now - t < RATE_WINDOW_MS) (recorded ip (rateCache s))) +
         length (filter (\<lambda>t. now - t < RATE_WINDOW_MS)
           (if getIP req = ip \<and> was_admitted (fst (handler cfg env req s))
            then [env_now env] else []))
         \<le> length (filter (\<lambda>t. now - t < RATE_WINDOW_MS)
               (recorded ip (rateCache (snd (handler cfg env req s)))))"
proof (cases "getIP req = ip")
  case other: False
  from recorded_other [OF other, of cfg env s]
  have "recorded ip (rateCache s) = [] \<or>
        recorded ip (rateCache (snd (handler cfg env req s))) = recorded ip (rateCache s)"
    using ret by (auto simp: recorded_def split: option.splits)
  with other show ?thesis by auto
next
  case own: True
  show ?thesis
  proof (cases "req_method req = cu ''POST'' \<and> origin_listed cfg (req_origin req)")
    case False
    then show ?thesis by (auto simp: handler_rateCache handler_was_admitted)
  next
    case reach: True
    show ?thesis
    proof (cases "fst (rateLimit (env_now env) ip (rateCache s))")
      case True
      then show ?thesis
        using reach own le
        by (simp add: handler_rateCache handler_was_admitted rateLimit_recorded filter_window_later)
    next
      case False
      then show ?thesis
        using reach own
        by (simp add: handler_rateCache handler_was_admitted rateLimit_rejected_recorded)
    qed
  qed
qed

lemma run_count:
  assumes "retained cfg ip rs s"
    and "list_all (\<lambda>(env, req). env_now env \<le> now) rs"
  shows "length (filter (\<lambda>t. now - t < RATE_WINDOW_MS) (recorded ip (rateCache s))) +
         length (filter (\<lambda>t. now - t < RATE_WINDOW_MS) (admitted_instants cfg ip rs s))
         \<le> length (filter (\<lambda>t. now - t < RATE_WINDOW_MS)
               (recorded ip (rateCache (est_run cfg rs s))))"
  using assms
proof (induction rs arbitrary: s)
  case Nil
  show ?case by simp
next
  case (Cons x rs)
  obtain env req where x: "x = (env, req)" by (cases x) auto
  from Cons.prems x have ret: "map_of (rateCache s) ip \<noteq> None \<longrightarrow>
      map_of (rateCache (snd (handler cfg env req s))) ip \<noteq> None"
    and rest: "retained cfg ip rs (snd (handler cfg env req s))"
    and le: "env_now env \<le> now"
    and les: "list_all (\<lambda>(env, req). env_now env \<le> now) rs"
    by simp_all
  note a = step_count [OF ret le]
  note b = Cons.IH [OF rest les]
  from a b show ?case unfolding x by simp
qed

lemma step_subset:
  "set (recorded ip (rateCache (snd (handler cfg env req s)))) \<subseteq>
   set (recorded ip (rateCache s)) \<union>
   set (if getIP req = ip \<and> was_admitted (fst (handler cfg env req s)) then [env_now env] else [])"
proof (cases "getIP req = ip")
  case other: False
  from recorded_other [OF other, of cfg env s]
  have "recorded ip (rateCache (snd (handler cfg env req s))) = [] \<or>
        recorded ip (rateCache (snd (handler cfg env req s))) = recorded ip (rateCache s)"
    by (auto simp: recorded_def split: option.splits)
  then show ?thesis by auto
next
  case own: True
  show ?thesis
  proof (cases "req_method req = cu ''POST'' \<and> origin_listed cfg (req_origin req)")
    case False
    then show ?thesis by (auto simp: handler_rateCache)
  next
    case reach: True
    show ?thesis
    proof (cases "fst (rateLimit (env_now env) ip (rateCache s))")
      case True
      then show ?thesis
        using reach own
        by (auto simp: handler_rateCache handler_was_admitted rateLimit_recorded)
    next
      case False
      then show ?thesis
        using reach own
        by (simp add: handler_rateCache handler_was_admitted rateLimit_rejected_recorded)
    qed
  qed
qed

lemma run_subset:
  "set (recorded ip (rateCache (est_run cfg rs s))) \<subseteq>
   set (recorded ip (rateCache s)) \<union> set (admitted_instants cfg ip rs s)"
proof (induction rs arbitrary: s)
  case Nil
  show ?case by simp
next
  case (Cons x rs)
  obtain env req where x: "x = (env, req)" by (cases x) auto
  note a = step_subset [of ip cfg env req s]
  note b = Cons.IH [of "snd (handler cfg env req s)"]
  from a b show ?case unfolding x by auto
qed

lemma rate_check_status:
  assumes "req_method req = cu ''POST''" and "origin_listed cfg (req_origin req)"
  shows "(RATE_MAX \<le> length (filter (\<lambda>t. env_now env - t < RATE_WINDOW_MS)
                                   (recorded (getIP req) (rateCache s)))
            \<longrightarrow> status (fst (handler cfg env req s)) = 429) \<and>
         ((\<forall>t \<in> set (recorded (getIP req) (rateCache s)). RATE_WINDOW_MS \<le> env_now env - t)
            \<longrightarrow> status (fst (handler cfg env req s)) \<noteq> 429)"
proof (intro conjI impI)
  assume full: "RATE_MAX \<le> length (filter (\<lambda>t. env_now env - t < RATE_WINDOW_MS)
                                   (recorded (getIP req) (rateCache s)))"
  then have no: "\<not> fst (rateLimit (env_now env) (getIP req) (rateCache s))"
    by (simp add: rateLimit_fst)
  then obtain cache' where "rateLimit (env_now env) (getIP req) (rateCache s) = (False, cache')"
    by (cases "rateLimit (env_now env) (getIP req) (rateCache s)") auto
  then show "status (fst (handler cfg env req s)) = 429"
    by (simp add: handler_after_origin [OF assms])
next
  assume old: "\<forall>t \<in> set (recorded (getIP req) (rateCache s)). RATE_WINDOW_MS \<le> env_now env - t"
  then have "filter (\<lambda>t. env_now env - t < RATE_WINDOW_MS) (recorded (getIP req) (rateCache s)) = []"
    by (auto simp: filter_empty_conv)
  then have yes: "fst (rateLimit (env_now env) (getIP req) (rateCache s))"
    by (simp add: rateLimit_fst RATE_MAX_def)
  then obtain cache' where "rateLimit (env_now env) (getIP req) (rateCache s) = (True, cache')"
    by (cases "rateLimit (env_now env) (getIP req) (rateCache s)") auto
  then show "status (fst (handler cfg env req s)) \<noteq> 429"
    by (simp add: handler_after_origin [OF assms] status_failed status_estimate
             split: option.splits sum.splits)
qed

lemma rateCache_ex_state: "rateCache (ex_state c) = c"
  by (simp add: ex_state_def)

lemma env_now_ex_env: "env_now (ex_env t ai ok) = t"
  by (simp add: ex_env_def)

lemma ex_empty_body_parsed:
  "BodySchema_safeParse ex_cfg (JObject []) =
     Inl [Issue invalid_type [PKey (cu ''zip'')], Issue invalid_type [PKey (cu ''description'')],
          Issue invalid_type [PKey (cu ''image_urls'')]]"
  by (simp add: BodySchema_safeParse_def)

lemma ex_handler_empty:
  assumes "fst (rateLimit t (cu ''10.0.0.1'') c)"
  shows "handler ex_cfg (ex_env t ai ok) (ex_req []) (ex_state c) =
     (\<lparr>status = 400, allow_origin = Some (cu ''https://shop.example''),
       body = BInvalid apology
         [Issue invalid_type [PKey (cu ''zip'')], Issue invalid_type [PKey (cu ''description'')],
          Issue invalid_type [PKey (cu ''image_urls'')]]\<rparr>,
      ex_state (snd (rateLimit t (cu ''10.0.0.1'') c)))"
proof -
  have p: "req_method (ex_req []) = cu ''POST''" by (simp add: ex_req_simps)
  have l: "origin_listed ex_cfg (req_origin (ex_req []))" by (simp add: ex_req_simps ex_listed)
  obtain c' where rl: "rateLimit t (cu ''10.0.0.1'') c = (True, c')"
    using assms by (cases "rateLimit t (cu ''10.0.0.1'') c") auto
  show ?thesis
    by (simp add: handler_after_origin [OF p l] ex_getIP ex_req_simps readJson_empty_body
          ex_empty_body_parsed rl ex_state_def ex_env_def setCors_def ex_listed)
qed

lemma ex_burst_run:
  "est_run ex_cfg (ex_burst [0, 1, 2, 3, 4]) (ex_state []) =
     ex_state [(cu ''10.0.0.1'', [0, 1, 2, 3, 4])]"
  by (simp add: ex_burst_def ex_handler_empty ex_rate_first ex_rate_next
        RATE_WINDOW_MS_def RATE_MAX_def)

lemma ex_burst_admitted:
  "admitted_instants ex_cfg (cu ''10.0.0.1'') (ex_burst [0, 1, 2, 3, 4]) (ex_state []) =
     [0, 1, 2, 3, 4]"
  by (simp add: ex_burst_def ex_handler_empty ex_rate_first ex_rate_next ex_getIP
        RATE_WINDOW_MS_def RATE_MAX_def was_admitted_def env_now_ex_env)

lemma ex_burst_retained:
  "retained ex_cfg (cu ''10.0.0.1'') (ex_burst [0, 1, 2, 3, 4]) (ex_state [])"
  by (simp add: ex_burst_def ex_handler_empty ex_rate_first ex_rate_next rateCache_ex_state
        RATE_WINDOW_MS_def RATE_MAX_def)

lemma est_run_append: "est_run cfg (xs @ ys) s = est_run cfg ys (est_run cfg xs s)"
proof (induction xs arbitrary: s)
  case Nil
  show ?case by simp
next
  case (Cons x xs)
  obtain env req where "x = (env, req)" by (cases x) auto
  with Cons show ?case by simp
qed

lemma admitted_instants_append:
  "admitted_instants cfg ip (xs @ ys) s =
     admitted_instants cfg ip xs s @ admitted_instants cfg ip ys (est_run cfg xs s)"
proof (induction xs arbitrary: s)
  case Nil
  show ?case by simp
next
  case (Cons x xs)
  obtain env req where "x = (env, req)" by (cases x) auto
  with Cons show ?case by simp
qed

lemma admitted_instants_others:
  assumes "\<forall>x \<in> set rs. getIP (snd x) \<noteq> ip"
  shows "admitted_instants cfg ip rs s = []"
  using assms
proof (induction rs arbitrary: s)
  case Nil
  show ?case by simp
next
  case (Cons x rs)
  obtain env req where "x = (env, req)" by (cases x) auto
  with Cons show ?case by simp
qed

lemma filter_absent_key: "map_of c ip = None \<Longrightarrow> filter (\<lambda>e. fst e \<noteq> ip) c = c"
  by (induction c) (auto split: if_splits)

lemma rateLimit_fresh:
  assumes "map_of c ip = None"
  shows "rateLimit now ip c = (True, take CACHE_MAX ((ip, [now]) # c))"
  using assms
  by (simp add: rateLimit_def lru_get_def lru_set_def RATE_MAX_def filter_absent_key)

lemma take_append_take: "take m (xs @ take m ys) = take m (xs @ ys)"
  by (simp add: min_def)

lemma fresh_callers_cache:
  assumes "\<forall>r \<in> set reqs. req_method r = cu ''POST'' \<and> origin_listed cfg (req_origin r)"
    and "distinct (map getIP reqs)"
    and "\<forall>r \<in> set reqs. map_of (rateCache s) (getIP r) = None"
    and "length (rateCache s) \<le> CACHE_MAX"
  shows "rateCache (est_run cfg (map (\<lambda>r. (env, r)) reqs) s) =
           take CACHE_MAX (rev (map (\<lambda>r. (getIP r, [env_now env])) reqs) @ rateCache s)"
  using assms
proof (induction reqs arbitrary: s)
  case Nil
  then show ?case by simp
next
  case (Cons r reqs)
  let ?s' = "snd (handler cfg env r s)"
  have fresh: "map_of (rateCache s) (getIP r) = None" using Cons.prems(3) by simp
  have reach: "req_method r = cu ''POST'' \<and> origin_listed cfg (req_origin r)"
    using Cons.prems(1) by simp
  have c': "rateCache ?s' = take CACHE_MAX ((getIP r, [env_now env]) # rateCache s)"
    using reach by (simp add: handler_rateCache rateLimit_fresh [OF fresh])
  have 1: "\<forall>q \<in> set reqs. req_method q = cu ''POST'' \<and> origin_listed cfg (req_origin q)"
    using Cons.prems(1) by simp
  have 2: "distinct (map getIP reqs)" using Cons.prems(2) by simp
  have 3: "\<forall>q \<in> set reqs. map_of (rateCache ?s') (getIP q) = None"
  proof
    fix q assume q: "q \<in> set reqs"
    then have "getIP q \<in> getIP ` set reqs" by (rule imageI)
    moreover have "getIP r \<notin> getIP ` set reqs" using Cons.prems(2) by simp
    ultimately have ne: "getIP q \<noteq> getIP r" by metis
    have "map_of (rateCache s) (getIP q) = None" using Cons.prems(3) q by simp
    then have "map_of ((getIP r, [env_now env]) # rateCache s) (getIP q) = None"
      using ne by simp
    then show "map_of (rateCache ?s') (getIP q) = None"
      using map_of_take_cases [of CACHE_MAX "(getIP r, [env_now env]) # rateCache s" "getIP q"]
      unfolding c' by auto
  qed
  have 4: "length (rateCache ?s') \<le> CACHE_MAX" unfolding c' by simp
  have "rateCache (est_run cfg (map (\<lambda>r. (env, r)) reqs) ?s') =
          take CACHE_MAX (rev (map (\<lambda>r. (getIP r, [env_now env])) reqs) @ rateCache ?s')"
    using Cons.IH [OF 1 2 3 4] .
  then show ?case unfolding c' by (simp add: take_append_take)
qed

lemma map_of_take_absent:
  assumes "k \<notin> fst ` set xs"
  shows "map_of (take n xs) k = None"
proof -
  have "map_of xs k = None" using assms by (simp add: map_of_eq_None_iff)
  then show ?thesis using map_of_take_cases [of n xs k] by auto
qed

lemma crowd_evicts:
  assumes "\<forall>r \<in> set reqs. req_method r = cu ''POST'' \<and> origin_listed cfg (req_origin r)"
    and "distinct (map getIP reqs)"
    and "\<forall>r \<in> set reqs. map_of (rateCache s) (getIP r) = None"
    and "length (rateCache s) \<le> CACHE_MAX"
    and "CACHE_MAX \<le> length reqs"
    and "\<forall>r \<in> set reqs. getIP r \<noteq> ip"
  shows "recorded ip (rateCache (est_run cfg (map (\<lambda>r. (env, r)) reqs) s)) = []"
proof -
  let ?new = "rev (map (\<lambda>r. (getIP r, [env_now env])) reqs)"
  have "rateCache (est_run cfg (map (\<lambda>r. (env, r)) reqs) s) = take CACHE_MAX (?new @ rateCache s)"
    using assms(1-4) by (rule fresh_callers_cache)
  also have "\<dots> = take CACHE_MAX ?new" using assms(5) by simp
  finally have c: "rateCache (est_run cfg (map (\<lambda>r. (env, r)) reqs) s) = take CACHE_MAX ?new" .
  have "ip \<notin> fst ` set ?new" using assms(6) by auto
  then have "map_of (take CACHE_MAX ?new) ip = None" by (rule map_of_take_absent)
  then show ?thesis by (simp add: c recorded_def)
qed

lemma dropWhile_none: "\<forall>c \<in> set s. \<not> P c \<Longrightarrow> dropWhile P s = s"
  by (cases s) auto

lemma trim_plain: "\<forall>c \<in> set s. \<not> is_space c \<Longrightarrow> trim s = s"
  by (simp add: trim_def dropWhile_none)

lemma ex_other_ip: "getIP (ex_other i) = replicate (Suc i) 0x63"
proof -
  have ns: "\<not> is_space 0x63" by (simp add: is_space_def)
  have h: "split_first 0x2C (replicate (Suc i) 0x63) = replicate (Suc i) 0x63"
    unfolding split_first_def by (rule takeWhile_eq_all_conv [THEN iffD2]) auto
  have t: "trim (replicate (Suc i) 0x63) = replicate (Suc i) 0x63"
    using ns by (intro trim_plain) auto
  have f: "req_forwarded_for (ex_other i) = Some (replicate (Suc i) 0x63)"
    by (simp add: ex_other_def)
  show ?thesis
    unfolding getIP_def f by (simp add: Let_def h t del: replicate_Suc)
qed

lemma ex_other_reaches:
  "req_method (ex_other i) = cu ''POST'' \<and> origin_listed ex_cfg (req_origin (ex_other i))"
  by (simp add: ex_other_def ex_req_def ex_listed)

lemma ex_other_not_caller: "replicate (Suc i) 0x63 \<noteq> cu ''10.0.0.1''"
  by (simp add: cu_def)

lemma ex_crowd_map:
  "ex_crowd t n = map (\<lambda>r. (ex_env t AiThrows True, r)) (map ex_other [0..<n])"
  by (simp add: ex_crowd_def)

lemma ex_others_distinct: "distinct (map getIP (map ex_other [0..<n]))"
proof -
  have "inj_on (\<lambda>i. replicate (Suc i) (0x63::nat)) (set [0..<n])"
    by (rule inj_onI) (metis length_replicate nat.inject)
  then have d: "distinct (map (\<lambda>i. replicate (Suc i) (0x63::nat)) [0..<n])"
    by (simp add: distinct_map del: replicate_Suc)
  have h: "map getIP (map ex_other [0..<n]) = map (\<lambda>i. replicate (Suc i) 0x63) [0..<n]"
    by (simp add: ex_other_ip o_def del: replicate_Suc)
  show ?thesis unfolding h by (rule d)
qed

lemma ex_crowd_evicts:
  assumes "CACHE_MAX \<le> n"
  shows "recorded (cu ''10.0.0.1'')
           (rateCache (est_run ex_cfg (ex_crowd t n) (ex_state [(cu ''10.0.0.1'', ts)]))) = []"
  unfolding ex_crowd_map
proof (rule crowd_evicts)
  show "\<forall>r \<in> set (map ex_other [0..<n]).
          req_method r = cu ''POST'' \<and> origin_listed ex_cfg (req_origin r)"
    using ex_other_reaches by auto
  show "distinct (map getIP (map ex_other [0..<n]))" by (rule ex_others_distinct)
  show "\<forall>r \<in> set (map ex_other [0..<n]).
          map_of (rateCache (ex_state [(cu ''10.0.0.1'', ts)])) (getIP r) = None"
    using ex_other_not_caller by (auto simp: rateCache_ex_state ex_other_ip simp del: replicate_Suc)
  show "length (rateCache (ex_state [(cu ''10.0.0.1'', ts)])) \<le> CACHE_MAX"
    by (simp add: rateCache_ex_state CACHE_MAX_def)
  show "CACHE_MAX \<le> length (map ex_other [0..<n])" using assms by simp
  show "\<forall>r \<in> set (map ex_other [0..<n]). getIP r \<noteq> cu ''10.0.0.1''"
    using ex_other_not_caller by (auto simp: ex_other_ip simp del: replicate_Suc)
qed

lemma ex_crowd_not_caller: "\<forall>x \<in> set (ex_crowd t n). getIP (snd x) \<noteq> cu ''10.0.0.1''"
  using ex_other_not_caller by (auto simp: ex_crowd_def ex_other_ip simp del: replicate_Suc)

section \<open>The estimate handler: properties\<close>

text \<open>
  C4, as the code has it. Take a sequence of requests to the handler, none made later
  than the attempt that follows it, during which the entry of the caller is never
  evicted from the rate cache. When at least \<open>RATE_MAX\<close> (five) requests of the caller
  were admitted during the sequence at instants younger than the window of ten minutes,
  the attempt is refused with status 429. And whatever the sequence, when every instant
  recorded for the caller before it or admitted during it is at least ten minutes old,
  the attempt is admitted.
\<close>

theorem rate_limit_after_admissions:
  assumes "req_method r = cu ''POST''" and "origin_listed cfg (req_origin r)"
  shows "(retained cfg (getIP r) rs s \<and>
          list_all (\<lambda>(env, req). env_now env \<le> env_now e) rs \<and>
          RATE_MAX \<le> length (filter (\<lambda>t. env_now e - t < RATE_WINDOW_MS)
                                 (admitted_instants cfg (getIP r) rs s))
            \<longrightarrow> status (fst (handler cfg e r (est_run cfg rs s))) = 429) \<and>
         ((\<forall>t \<in> set (recorded (getIP r) (rateCache s) @ admitted_instants cfg (getIP r) rs s).
              RATE_WINDOW_MS \<le> env_now e - t)
            \<longrightarrow> status (fst (handler cfg e r (est_run cfg rs s))) \<noteq> 429)"
proof (intro conjI impI)
  assume h: "retained cfg (getIP r) rs s \<and>
          list_all (\<lambda>(env, req). env_now env \<le> env_now e) rs \<and>
          RATE_MAX \<le> length (filter (\<lambda>t. env_now e - t < RATE_WINDOW_MS)
                                 (admitted_instants cfg (getIP r) rs s))"
  then have "length (filter (\<lambda>t. env_now e - t < RATE_WINDOW_MS)
                 (admitted_instants cfg (getIP r) rs s))
             \<le> length (filter (\<lambda>t. env_now e - t < RATE_WINDOW_MS)
                 (recorded (getIP r) (rateCache (est_run cfg rs s))))"
    using run_count [of cfg "getIP r" rs s "env_now e"] by simp
  with h have "RATE_MAX \<le> length (filter (\<lambda>t. env_now e - t < RATE_WINDOW_MS)
                 (recorded (getIP r) (rateCache (est_run cfg rs s))))"
    by simp
  then show "status (fst (handler cfg e r (est_run cfg rs s))) = 429"
    using rate_check_status [OF assms, of e "est_run cfg rs s"] by blast
next
  assume old: "\<forall>t \<in> set (recorded (getIP r) (rateCache s) @ admitted_instants cfg (getIP r) rs s).
              RATE_WINDOW_MS \<le> env_now e - t"
  have "\<forall>t \<in> set (recorded (getIP r) (rateCache (est_run cfg rs s))). RATE_WINDOW_MS \<le> env_now e - t"
    using old run_subset [of "getIP r" cfg rs s] by auto
  then show "status (fst (handler cfg e r (est_run cfg rs s))) \<noteq> 429"
    using rate_check_status [OF assms, of e "est_run cfg rs s"] by blast
qed

theorem rate_limit_after_admissions_witness:
  "retained ex_cfg (cu ''10.0.0.1'') (ex_burst [0, 1, 2, 3, 4]) (ex_state []) \<and>
   admitted_instants ex_cfg (cu ''10.0.0.1'') (ex_burst [0, 1, 2, 3, 4]) (ex_state []) =
     [0, 1, 2, 3, 4] \<and>
   status (fst (handler ex_cfg (ex_env 5 AiThrows True) (ex_req [])
     (est_run ex_cfg (ex_burst [0, 1, 2, 3, 4]) (ex_state [])))) = 429 \<and>
   status (fst (handler ex_cfg (ex_env 600004 AiThrows True) (ex_req [])
     (est_run ex_cfg (ex_burst [0, 1, 2, 3, 4]) (ex_state [])))) \<noteq> 429"
proof -
  have p: "req_method (ex_req []) = cu ''POST''" by (simp add: ex_req_simps)
  have l: "origin_listed ex_cfg (req_origin (ex_req []))" by (simp add: ex_req_simps ex_listed)
  have le: "list_all (\<lambda>(env, req). env_now env \<le> env_now (ex_env 5 AiThrows True))
              (ex_burst [0, 1, 2, 3, 4])"
    by (simp add: ex_burst_def ex_env_def)
  have five: "RATE_MAX \<le> length (filter (\<lambda>t. env_now (ex_env 5 AiThrows True) - t < RATE_WINDOW_MS)
      (admitted_instants ex_cfg (getIP (ex_req [])) (ex_burst [0, 1, 2, 3, 4]) (ex_state [])))"
    by (simp add: ex_getIP ex_burst_admitted ex_env_def RATE_MAX_def RATE_WINDOW_MS_def)
  have old: "\<forall>t \<in> set (recorded (getIP (ex_req [])) (rateCache (ex_state [])) @
                admitted_instants ex_cfg (getIP (ex_req [])) (ex_burst [0, 1, 2, 3, 4]) (ex_state [])).
      RATE_WINDOW_MS \<le> env_now (ex_env 600004 AiThrows True) - t"
    by (simp add: ex_getIP ex_burst_admitted rateCache_ex_state recorded_def ex_env_def
          RATE_WINDOW_MS_def)
  have ret: "retained ex_cfg (getIP (ex_req [])) (ex_burst [0, 1, 2, 3, 4]) (ex_state [])"
    by (simp add: ex_getIP ex_burst_retained)
  from rate_limit_after_admissions [OF p l, of "ex_burst [0, 1, 2, 3, 4]" "ex_state []" "ex_env 5 AiThrows True"]
    ret le five
  have a: "status (fst (handler ex_cfg (ex_env 5 AiThrows True) (ex_req [])
     (est_run ex_cfg (ex_burst [0, 1, 2, 3, 4]) (ex_state [])))) = 429"
    by blast
  from rate_limit_after_admissions [OF p l, of "ex_burst [0, 1, 2, 3, 4]" "ex_state []" "ex_env 600004 AiThrows True"]
    old
  have b: "status (fst (handler ex_cfg (ex_env 600004 AiThrows True) (ex_req [])
     (est_run ex_cfg (ex_burst [0, 1, 2, 3, 4]) (ex_state [])))) \<noteq> 429"
    by blast
  from ex_burst_retained ex_burst_admitted a b show ?thesis by blast
qed

text \<open>
  C4, as stated, fails. The caller is admitted five times, at the instants 0 to 4; five
  thousand other callers follow, each with one request; the rate cache holds five
  thousand callers, so the entry of the first one is evicted, and at the instant 6, with
  all five of its instants inside the window, the caller is admitted again.
\<close>

theorem rate_limit_eviction_readmits:
  "admitted_instants ex_cfg (cu ''10.0.0.1'') (ex_burst [0, 1, 2, 3, 4] @ ex_crowd 5 5000)
     (ex_state []) = [0, 1, 2, 3, 4] \<and>
   list_all (\<lambda>t. 6 - t < RATE_WINDOW_MS) [0, 1, 2, 3, 4] \<and>
   status (fst (handler ex_cfg (ex_env 6 AiThrows True) (ex_req [])
     (est_run ex_cfg (ex_burst [0, 1, 2, 3, 4] @ ex_crowd 5 5000) (ex_state [])))) \<noteq> 429"
proof -
  have a: "admitted_instants ex_cfg (cu ''10.0.0.1'') (ex_burst [0, 1, 2, 3, 4] @ ex_crowd 5 5000)
     (ex_state []) = [0, 1, 2, 3, 4]"
    by (simp only: admitted_instants_append ex_burst_admitted
          admitted_instants_others [OF ex_crowd_not_caller] append_Nil2)
  have w: "list_all (\<lambda>t. 6 - t < RATE_WINDOW_MS) [0, 1, 2, 3, 4]"
    by (simp add: RATE_WINDOW_MS_def)
  have big: "CACHE_MAX \<le> 5000" by (simp add: CACHE_MAX_def)
  have gone: "recorded (getIP (ex_req []))
      (rateCache (est_run ex_cfg (ex_burst [0, 1, 2, 3, 4] @ ex_crowd 5 5000) (ex_state []))) = []"
    by (simp only: est_run_append ex_burst_run ex_getIP ex_crowd_evicts [OF big])
  have p: "req_method (ex_req []) = cu ''POST''" by (simp add: ex_req_simps)
  have l: "origin_listed ex_cfg (req_origin (ex_req []))" by (simp add: ex_req_simps ex_listed)
  have "\<forall>t \<in> set (recorded (getIP (ex_req []))
      (rateCache (est_run ex_cfg (ex_burst [0, 1, 2, 3, 4] @ ex_crowd 5 5000) (ex_state [])))).
      RATE_WINDOW_MS \<le> env_now (ex_env 6 AiThrows True) - t"
    unfolding gone by simp
  then have s: "status (fst (handler ex_cfg (ex_env 6 AiThrows True) (ex_req [])
     (est_run ex_cfg (ex_burst [0, 1, 2, 3, 4] @ ex_crowd 5 5000) (ex_state [])))) \<noteq> 429"
    using rate_check_status [OF p l, of "ex_env 6 AiThrows True"
        "est_run ex_cfg (ex_burst [0, 1, 2, 3, 4] @ ex_crowd 5 5000) (ex_state [])"]
    by blast
  from a w s show ?thesis by blast
qed

text \<open>
  C5. A POST request whose Origin header is absent or not in the allow list gets status
  403, and the state (the rate cache, the store, the log) is exactly what it was: the
  rate limiter has not run.
\<close>

theorem disallowed_origin_forbidden:
  assumes "req_method req = cu ''POST''"
    and "case req_origin req of None \<Rightarrow> True | Some ori \<Rightarrow> ori \<notin> set (allowedOrigins cfg)"
  shows "status (fst (handler cfg env req s)) = 403 \<and> snd (handler cfg env req s) = s"
proof -
  have "\<not> origin_listed cfg (req_origin req)"
    using assms(2) by (auto simp: origin_listed_def split: option.splits)
  then show ?thesis
    using assms(1) cu_POST_not_OPTIONS by (simp add: handler_def Let_def)
qed

theorem disallowed_origin_forbidden_witness:
  "status (fst (handler ex_cfg (ex_env 0 AiThrows True)
      ((ex_req [])\<lparr>req_origin := Some (cu ''https://evil.example'')\<rparr>) (ex_state []))) = 403 \<and>
   snd (handler ex_cfg (ex_env 0 AiThrows True)
      ((ex_req [])\<lparr>req_origin := Some (cu ''https://evil.example'')\<rparr>) (ex_state [])) = ex_state []"
proof -
  have p: "req_method ((ex_req [])\<lparr>req_origin := Some (cu ''https://evil.example'')\<rparr>) = cu ''POST''"
    by (simp add: ex_req_def)
  have o: "case req_origin ((ex_req [])\<lparr>req_origin := Some (cu ''https://evil.example'')\<rparr>) of
             None \<Rightarrow> True | Some ori \<Rightarrow> ori \<notin> set (allowedOrigins ex_cfg)"
    by (simp add: ex_cfg_def cu_def)
  show ?thesis using disallowed_origin_forbidden [OF p o] by simp
qed

text \<open>
  C6. A request that passes the method, origin and rate checks and whose body is a JSON
  object without the member \<^verbatim>\<open>description\<close> gets status 400 with an issue whose
  path is \<^verbatim>\<open>description\<close>, and the instant of the request has been recorded for
  the caller.
\<close>

theorem missing_description_rejected:
  assumes "req_method req = cu ''POST''" and "origin_listed cfg (req_origin req)"
    and "fst (rateLimit (env_now env) (getIP req) (rateCache s))"
    and "readJson (req_body req) = Some (JObject ms)"
    and "map_of ms (cu ''description'') = None"
  shows "status (fst (handler cfg env req s)) = 400 \<and>
         (\<exists>issues. body (fst (handler cfg env req s)) = BInvalid apology issues \<and>
                    Issue invalid_type [PKey (cu ''description'')] \<in> set issues) \<and>
         recorded (getIP req) (rateCache (snd (handler cfg env req s))) =
           filter (\<lambda>t. env_now env - t < RATE_WINDOW_MS) (recorded (getIP req) (rateCache s))
             @ [env_now env]"
proof -
  obtain cache' where rl: "rateLimit (env_now env) (getIP req) (rateCache s) = (True, cache')"
    using assms(3) by (cases "rateLimit (env_now env) (getIP req) (rateCache s)") auto
  have "\<exists>issues. BodySchema_safeParse cfg (JObject ms) = Inl issues \<and>
                  Issue invalid_type [PKey (cu ''description'')] \<in> set issues"
    using assms(5)
    by (cases "string_field (cu ''zip'') 5 10 (map_of ms (cu ''zip''))";
        cases "url_array cfg (cu ''image_urls'') (map_of ms (cu ''image_urls''))")
       (simp add: BodySchema_safeParse_def)
  then obtain issues where sp: "BodySchema_safeParse cfg (JObject ms) = Inl issues"
    and mem: "Issue invalid_type [PKey (cu ''description'')] \<in> set issues"
    by blast
  have h: "handler cfg env req s =
      (\<lparr>status = 400, allow_origin = setCors cfg (req_origin req), body = BInvalid apology issues\<rparr>,
       s\<lparr>rateCache := cache'\<rparr>)"
    by (simp add: handler_after_origin [OF assms(1,2)] rl assms(4) sp)
  have "recorded (getIP req) cache' =
          filter (\<lambda>t. env_now env - t < RATE_WINDOW_MS) (recorded (getIP req) (rateCache s))
            @ [env_now env]"
    using rateLimit_recorded [OF assms(3)] rl by simp
  with h mem show ?thesis by simp
qed

theorem missing_description_rejected_witness:
  "status (fst (handler ex_cfg (ex_env 7 AiThrows True) (ex_req []) (ex_state []))) = 400 \<and>
   recorded (cu ''10.0.0.1'')
     (rateCache (snd (handler ex_cfg (ex_env 7 AiThrows True) (ex_req []) (ex_state [])))) = [7]"
proof -
  have p: "req_method (ex_req []) = cu ''POST''" by (simp add: ex_req_simps)
  have l: "origin_listed ex_cfg (req_origin (ex_req []))" by (simp add: ex_req_simps ex_listed)
  have r: "fst (rateLimit (env_now (ex_env 7 AiThrows True)) (getIP (ex_req []))
             (rateCache (ex_state [])))"
    by (simp add: rateLimit_fst recorded_def ex_state_def RATE_MAX_def)
  have j: "readJson (req_body (ex_req [])) = Some (JObject [])"
    by (simp add: ex_req_simps readJson_empty_body)
  have d: "map_of ([] :: (ustring \<times> json) list) (cu ''description'') = None" by simp
  show ?thesis
    using missing_description_rejected [OF p l r j d]
    by (simp add: ex_getIP ex_env_def ex_state_def recorded_def)
qed

text \<open>
  C7. An admitted request with a valid body, for which the model answers that the
  address is outside the area and gives \<^verbatim>\<open>serviceable: false\<close>: when the write to
  the store fails, the response is the fallback of the \<^verbatim>\<open>catch\<close> block (status
  200, flag true, the fallback line, no data), not the quote that the same run returns
  when the write succeeds.
\<close>

theorem storage_failure_returns_fallback:
  "fst (handler ex_cfg (ex_env 0 (AiOutput (Some ex_model_text)) False) (ex_req ex_body) (ex_state []))
     = \<lparr>status = 200, allow_origin = Some (cu ''https://shop.example''),
        body = BQuote True (cu ''Sorry'') (JObject [])\<rparr> \<and>
   fst (handler ex_cfg (ex_env 0 (AiOutput (Some ex_model_text)) True) (ex_req ex_body) (ex_state []))
     = \<lparr>status = 200, allow_origin = Some (cu ''https://shop.example''),
        body = BQuote False (cu ''Outside our area'') (JObject [(cu ''serviceable'', JBool False)])\<rparr>"
proof -
  have a: "fst (handler ex_cfg (ex_env 0 (AiOutput (Some ex_model_text)) False) (ex_req ex_body) (ex_state []))
     = \<lparr>status = 200, allow_origin = Some (cu ''https://shop.example''),
        body = BQuote True (cu ''Sorry'') (JObject [])\<rparr>"
    unfolding ex_handler_estimate
    by (simp add: estimate_def ex_env_def failed_def fallback_response_def ex_cfg_def)
  have ne: "cu ''Outside our area'' \<noteq> []" by (simp add: cu_def)
  have sv: "serviceable_of (JObject [(cu ''serviceable'', JBool False)]) (cu ''Outside our area'') = False"
    by (simp add: serviceable_of_def)
  have b: "fst (handler ex_cfg (ex_env 0 (AiOutput (Some ex_model_text)) True) (ex_req ex_body) (ex_state []))
     = \<lparr>status = 200, allow_origin = Some (cu ''https://shop.example''),
        body = BQuote False (cu ''Outside our area'') (JObject [(cu ''serviceable'', JBool False)])\<rparr>"
    unfolding ex_handler_estimate
    by (simp add: estimate_def ex_env_def ex_model_trim ex_model_line
          ex_model_extract sv ne data_of_def Let_def)
  from a b show ?thesis by blast
qed

section \<open>The upload-signing handler: properties\<close>

text \<open>
  C8, as the code has it. For a batch identifier that is a non-empty string, a request
  for a token that passes the size checks stores the live count of the batch plus one,
  and only then compares it: it is refused when the new count is above
  \<open>MAX_FILES\<close> and granted otherwise. The stored count is thus a count of attempts.
\<close>

theorem batch_count_stored_before_check:
  assumes "parse_meta clientPayload = JObject ms"
    and "\<not> exceeds (megabytes cfg (map_of ms (cu ''size''))) (MAX_FILE_MB cfg)"
    and "\<not> exceeds (megabytes cfg (map_of ms (cu ''batchTotal''))) (MAX_TOTAL_MB cfg)"
    and "map_of ms (cu ''batchId'') = Some (JString k)"
    and "k \<noteq> []"
  shows "(let live = (case fst (batch_get (senv_now env) (JString k) counts) of
                       None \<Rightarrow> 0 | Some n \<Rightarrow> n);
              r = onBeforeGenerateToken cfg env req ip path clientPayload counts
          in stored_count (JString k) (snd r) = Some (live + 1) \<and>
             (if MAX_FILES cfg < live + 1
              then fst r = Inl (BatchExceedsFiles (MAX_FILES cfg))
              else (\<exists>opts. fst r = Inr opts)))"
  using assms
  by (simp add: onBeforeGenerateToken_def Let_def count_batch_string batch_set_stored is_ref_def)

theorem batch_count_stored_before_check_witness:
  \<open>(let r = onBeforeGenerateToken ex_cfg (ex_sign_env 1000) (ex_req []) (cu ''10.0.0.1'') (cu ''a.jpg'')
              (Some (cu ''{"batchId":"b"}'')) [(JString (cu ''b''), (12, 0))]
    in stored_count (JString (cu ''b'')) (snd r) = Some 13 \<and>
       fst r = Inl (BatchExceedsFiles 12))\<close>
proof -
  have m: \<open>parse_meta (Some (cu ''{"batchId":"b"}'')) = JObject [(cu ''batchId'', JString (cu ''b''))]\<close>
    by (simp add: parse_meta_def json_eval)
  have s: "\<not> exceeds (megabytes ex_cfg (map_of [(cu ''batchId'', JString (cu ''b''))] (cu ''size'')))
             (MAX_FILE_MB ex_cfg)"
    by (simp add: exceeds_def megabytes_def cu_def)
  have t: "\<not> exceeds (megabytes ex_cfg (map_of [(cu ''batchId'', JString (cu ''b''))] (cu ''batchTotal'')))
             (MAX_TOTAL_MB ex_cfg)"
    by (simp add: exceeds_def megabytes_def cu_def)
  have b: "map_of [(cu ''batchId'', JString (cu ''b''))] (cu ''batchId'') = Some (JString (cu ''b''))"
    by simp
  have n: "cu ''b'' \<noteq> []" by (simp add: cu_def)
  have g: "batch_get 1000 (JString (cu ''b'')) [(JString (cu ''b''), (12, 0))] =
             (Some 12, [(JString (cu ''b''), (12, 0))])"
    by (simp add: batch_get_def is_ref_def ttl_get_def RATE_WINDOW_MS_def)
  show ?thesis
    using batch_count_stored_before_check [OF m s t b n, of "ex_sign_env 1000" "[(JString (cu ''b''), (12, 0))]" "ex_req []" "cu ''10.0.0.1''" "cu ''a.jpg''"]
    by (simp add: Let_def ex_sign_env_def g ex_cfg_def)
qed

text \<open>
  C8, as stated, fails. Thirteen requests for a token of one batch, two and a half
  minutes apart, all pass the rate limiter; with the default limit of twelve files the
  thirteenth is refused, and the count stored for the batch is thirteen.
\<close>

theorem batch_count_exceeds_limit:
  "stored_count (JString (cu ''b''))
     (batchCounts (sign_run ex_cfg
        (map (\<lambda>t. (ex_sign_env t, ex_req ex_token_body))
           [0, 150000, 300000, 450000, 600000, 750000, 900000, 1050000, 1200000, 1350000,
            1500000, 1650000, 1800000])
        (ex_sign_state [] [] []))) = Some 13 \<and>
   \<not> 13 \<le> MAX_FILES ex_cfg"
proof -
  have run: "\<And>t rc bc lg rest. fst (rateLimit t (cu ''10.0.0.1'') rc) \<Longrightarrow>
      batchCounts (sign_run ex_cfg ((ex_sign_env t, ex_req ex_token_body) # rest) (ex_sign_state rc bc lg))
      = batchCounts (sign_run ex_cfg rest (ex_sign_state (snd (rateLimit t (cu ''10.0.0.1'') rc))
          (snd (onBeforeGenerateToken ex_cfg (ex_sign_env t) (ex_req ex_token_body) (cu ''10.0.0.1'')
                 (cu ''a.jpg'') (Some ex_client_payload) bc))
          (sign_log (snd (sign_handler ex_cfg (ex_sign_env t) (ex_req ex_token_body)
            (ex_sign_state rc bc lg))))))"
  proof -
    fix t rc bc lg rest
    assume a: "fst (rateLimit t (cu ''10.0.0.1'') rc)"
    have "snd (sign_handler ex_cfg (ex_sign_env t) (ex_req ex_token_body) (ex_sign_state rc bc lg)) =
          ex_sign_state (snd (rateLimit t (cu ''10.0.0.1'') rc))
          (snd (onBeforeGenerateToken ex_cfg (ex_sign_env t) (ex_req ex_token_body) (cu ''10.0.0.1'')
                 (cu ''a.jpg'') (Some ex_client_payload) bc))
          (sign_log (snd (sign_handler ex_cfg (ex_sign_env t) (ex_req ex_token_body)
            (ex_sign_state rc bc lg))))"
      using ex_sign_step [OF a, of bc lg] by (simp add: ex_sign_state_def)
    then show "batchCounts (sign_run ex_cfg ((ex_sign_env t, ex_req ex_token_body) # rest) (ex_sign_state rc bc lg))
      = batchCounts (sign_run ex_cfg rest (ex_sign_state (snd (rateLimit t (cu ''10.0.0.1'') rc))
          (snd (onBeforeGenerateToken ex_cfg (ex_sign_env t) (ex_req ex_token_body) (cu ''10.0.0.1'')
                 (cu ''a.jpg'') (Some ex_client_payload) bc))
          (sign_log (snd (sign_handler ex_cfg (ex_sign_env t) (ex_req ex_token_body)
            (ex_sign_state rc bc lg))))))"
      by simp
  qed
  have fin: "\<And>rc bc lg. batchCounts (sign_run ex_cfg [] (ex_sign_state rc bc lg)) = bc"
    by (simp add: ex_sign_state_def)
  have "stored_count (JString (cu ''b''))
     (batchCounts (sign_run ex_cfg
        (map (\<lambda>t. (ex_sign_env t, ex_req ex_token_body))
           [0, 150000, 300000, 450000, 600000, 750000, 900000, 1050000, 1200000, 1350000,
            1500000, 1650000, 1800000])
        (ex_sign_state [] [] []))) = Some 13"
    by (simp add: run fin ex_rate_first ex_rate_next ex_token_first ex_token_next
          RATE_WINDOW_MS_def RATE_MAX_def stored_count_def del: sign_run.simps)
  moreover have "\<not> 13 \<le> MAX_FILES ex_cfg" by (simp add: ex_cfg_def)
  ultimately show ?thesis by blast
qed

section \<open>Both handlers\<close>

text \<open>
  C9. When \<^verbatim>\<open>ALLOWED_ORIGINS\<close> is unset or blank, the allow list is empty; the
  estimate handler then answers every POST request with 403, whatever its Origin
  header, and the upload-signing handler never answers 403.
\<close>

theorem empty_allow_list:
  assumes "env = None \<or> (\<exists>s. env = Some s \<and> (\<forall>c \<in> set s. is_space c))"
    and "allowedOrigins cfg = parse_origins env"
    and "req_method req = cu ''POST''"
  shows "status (fst (handler cfg e req s)) = 403 \<and>
         s_status (fst (sign_handler cfg e' req s')) \<noteq> 403"
proof -
  have none: "allowedOrigins cfg = []"
    using assms(1,2) parse_origins_blank by simp
  then have "\<not> origin_listed cfg (req_origin req)"
    by (simp add: origin_listed_def split: option.splits)
  then have "status (fst (handler cfg e req s)) = 403"
    using assms(3) cu_POST_not_OPTIONS by (simp add: handler_def Let_def)
  moreover have "s_status (fst (sign_handler cfg e' req s')) \<noteq> 403"
    using assms(3) none by (rule sign_handler_open)
  ultimately show ?thesis by blast
qed

theorem empty_allow_list_witness:
  "parse_origins (Some (cu ''  '')) = [] \<and>
   status (fst (handler (ex_cfg\<lparr>allowedOrigins := parse_origins (Some (cu ''  ''))\<rparr>)
     (ex_env 0 AiThrows True) ((ex_req [])\<lparr>req_origin := None\<rparr>) (ex_state []))) = 403 \<and>
   s_status (fst (sign_handler (ex_cfg\<lparr>allowedOrigins := parse_origins (Some (cu ''  ''))\<rparr>)
     (ex_sign_env 0) ((ex_req [])\<lparr>req_origin := None\<rparr>) (ex_sign_state [] [] []))) \<noteq> 403"
proof -
  have b: "Some (cu ''  '') = None \<or> (\<exists>s. Some (cu ''  '') = Some s \<and> (\<forall>c \<in> set s. is_space c))"
    by (simp add: cu_def is_space_def)
  have a: "allowedOrigins (ex_cfg\<lparr>allowedOrigins := parse_origins (Some (cu ''  ''))\<rparr>) =
             parse_origins (Some (cu ''  ''))"
    by simp
  have p: "req_method ((ex_req [])\<lparr>req_origin := None\<rparr>) = cu ''POST''"
    by (simp add: ex_req_def)
  show ?thesis
    using empty_allow_list [OF b a p] parse_origins_blank [OF b] by simp
qed

section \<open>The serviceable flag\<close>

text \<open>
  C10. In the response to an admitted, valid request whose model call and write to the
  store succeed, the flag is the boolean member \<^verbatim>\<open>serviceable\<close> of the extracted
  JSON when there is one; otherwise it is true exactly when the customer line does not
  contain \<^verbatim>\<open>outside\<close> in any letter case. The customer line is the trimmed first
  line of the model text whenever that text is not empty.
\<close>

theorem serviceable_flag:
  assumes "req_method req = cu ''POST''" and "origin_listed cfg (req_origin req)"
    and "fst (rateLimit (env_now env) (getIP req) (rateCache s))"
    and "readJson (req_body req) = Some b"
    and "BodySchema_safeParse cfg b = Inr parsed"
    and "env_ai env = AiOutput out"
    and "env_put_ok env"
  shows "(\<exists>line data. body (fst (handler cfg env req s)) =
            BQuote (case get_prop (extractJsonLoose (model_text out)) (cu ''serviceable'') of
                      Some (JBool v) \<Rightarrow> v
                    | _ \<Rightarrow> \<not> contains_ci (cu ''outside'') (customer_line_of cfg (model_text out)))
                   line data) \<and>
         (model_text out \<noteq> [] \<longrightarrow>
            customer_line_of cfg (model_text out) = trim (split_first 0x0A (model_text out)))"
proof
  obtain cache' where rl: "rateLimit (env_now env) (getIP req) (rateCache s) = (True, cache')"
    using assms(3) by (cases "rateLimit (env_now env) (getIP req) (rateCache s)") auto
  have "handler cfg env req s =
      estimate cfg env (setCors cfg (req_origin req)) (getIP req) parsed (s\<lparr>rateCache := cache'\<rparr>)"
    by (simp add: handler_after_origin [OF assms(1,2)] rl assms(4,5))
  then show "\<exists>line data. body (fst (handler cfg env req s)) =
            BQuote (case get_prop (extractJsonLoose (model_text out)) (cu ''serviceable'') of
                      Some (JBool v) \<Rightarrow> v
                    | _ \<Rightarrow> \<not> contains_ci (cu ''outside'') (customer_line_of cfg (model_text out)))
                   line data"
    by (simp add: estimate_def assms(6,7) Let_def serviceable_of_eq)
next
  show "model_text out \<noteq> [] \<longrightarrow>
            customer_line_of cfg (model_text out) = trim (split_first 0x0A (model_text out))"
  proof
    assume ne: "model_text out \<noteq> []"
    then obtain t where "out = Some t" "model_text out = trim t"
      by (cases out) (auto simp: model_text_def)
    then have "split_first 0x0A (model_text out) \<noteq> []"
      using ne first_line_of_trimmed by simp
    then show "customer_line_of cfg (model_text out) = trim (split_first 0x0A (model_text out))"
      by (simp add: customer_line_of_def)
  qed
qed

theorem serviceable_flag_witness:
  "\<exists>line data. body (fst (handler ex_cfg (ex_env 0 (AiOutput (Some ex_model_text)) True)
      (ex_req ex_body) (ex_state []))) = BQuote False line data"
proof -
  have p: "req_method (ex_req ex_body) = cu ''POST''" by (simp add: ex_req_simps)
  have l: "origin_listed ex_cfg (req_origin (ex_req ex_body))" by (simp add: ex_req_simps ex_listed)
  have r: "fst (rateLimit (env_now (ex_env 0 (AiOutput (Some ex_model_text)) True))
             (getIP (ex_req ex_body)) (rateCache (ex_state [])))"
    by (simp add: rateLimit_fst recorded_def ex_state_def RATE_MAX_def)
  have j: "readJson (req_body (ex_req ex_body)) = Some (JObject [(cu ''zip'', JString (cu ''06268'')),
     (cu ''description'', JString (cu ''sofa'')), (cu ''image_urls'', JArray [])])"
    by (simp add: ex_req_simps ex_body_json)
  have a: "env_ai (ex_env 0 (AiOutput (Some ex_model_text)) True) = AiOutput (Some ex_model_text)"
    by (simp add: ex_env_def)
  have k: "env_put_ok (ex_env 0 (AiOutput (Some ex_model_text)) True)" by (simp add: ex_env_def)
  show ?thesis
    using serviceable_flag [OF p l r j ex_body_parsed a k]
    by (simp add: ex_model_trim ex_model_extract)
qed

end
